theory Spec2Isabelle
  imports Main "HOL-Library.Word" "HOL-Library.Signed_Division"
begin

unbundle bit_operations_syntax

section \<open>Machine integers, memory and faults\<close>

text \<open>
  The cursors and sizes of all three ring buffers are 32-bit unsigned integers
  (\<open>unsigned int\<close>, \<open>uint32_t\<close>, C# \<open>uint\<close>): arithmetic on them wraps around.
  The storage is a list of element slots.  The element type stays a type variable: the
  code copies elements with \<open>memcpy\<close> of \<open>sizeof (_type)\<close> bytes, or by assignment,
  and never looks inside them.

  An operation that divides by zero or touches a slot outside the storage has no
  defined result in C and throws in C#; both are the value \<open>Inl\<close> of a fault.  This is
  distinct from the failure indicator (return value 0 or \<open>false\<close>) of an operation that
  ran to its end.
\<close>

type_synonym u32 = "32 word"

datatype fault = DivideByZero | OutOfBounds

definition bindE :: "fault + 'a \<Rightarrow> ('a \<Rightarrow> fault + 'b) \<Rightarrow> fault + 'b" where
  "bindE m k = (case m of Inl e \<Rightarrow> Inl e | Inr x \<Rightarrow> k x)"

text \<open>Reading and writing slot \<open>i\<close> of a storage region.\<close>

definition load :: "'a list \<Rightarrow> int \<Rightarrow> fault + 'a" where
  "load m i = (if 0 \<le> i \<and> i < int (length m) then Inr (m ! nat i) else Inl OutOfBounds)"

definition store :: "'a list \<Rightarrow> int \<Rightarrow> 'a \<Rightarrow> fault + 'a list" where
  "store m i v = (if 0 \<le> i \<and> i < int (length m) then Inr (m[nat i := v]) else Inl OutOfBounds)"

text \<open>
  \<open>memcpy (dst + doff, src + soff, n * sizeof (_type))\<close>: \<open>n\<close> whole elements from
  \<open>src\<close> at offset \<open>soff\<close> to \<open>dst\<close> at offset \<open>doff\<close>; both runs must lie
  inside their regions.
\<close>

definition memcpy_elems :: "'a list \<Rightarrow> nat \<Rightarrow> 'a list \<Rightarrow> nat \<Rightarrow> nat \<Rightarrow> fault + 'a list" where
  "memcpy_elems dst doff src soff n =
     (if soff + n \<le> length src \<and> doff + n \<le> length dst
      then Inr (take doff dst @ take n (drop soff src) @ drop (doff + n) dst)
      else Inl OutOfBounds)"

section \<open>The mask-based variant: \<open>struct gfifo\<close>\<close>

record 'a gfifo =
  g_data :: "'a list"
  g_in :: u32
  g_out :: u32
  g_size :: u32
  g_mask :: u32

definition gfifo_init :: "'a list \<Rightarrow> u32 \<Rightarrow> 'a gfifo" where
  "gfifo_init buf sz = \<lparr>g_data = buf, g_in = 0, g_out = 0, g_size = sz, g_mask = sz - 1\<rparr>"

definition gfifo_empty :: "'a gfifo \<Rightarrow> bool" where
  "gfifo_empty f = (g_in f = g_out f)"

definition gfifo_full :: "'a gfifo \<Rightarrow> bool" where
  "gfifo_full f = (((g_in f + 1) AND g_mask f) = g_out f)"

definition gfifo_vaild_count :: "'a gfifo \<Rightarrow> u32" where
  "gfifo_vaild_count f = (g_in f - g_out f) AND g_mask f"

text \<open>
  The operations return the macro's value (\<open>True\<close> for 1, \<open>False\<close> for 0) and the
  structure as the macro leaves it.  An operation with an output parameter also returns
  what it wrote there: \<open>None\<close> when it left the caller's variable untouched.
\<close>

definition gfifo_insert :: "'a gfifo \<Rightarrow> 'a \<Rightarrow> fault + (bool \<times> 'a gfifo)" where
  "gfifo_insert f v =
     (let ret = \<not> (((g_in f + 1) AND g_mask f) = g_out f) in
      if ret
      then bindE (store (g_data f) (uint (g_in f)) v)
             (\<lambda>d. Inr (ret, f\<lparr>g_data := d, g_in := (g_in f + 1) AND g_mask f\<rparr>))
      else Inr (ret, f))"

definition gfifo_remove :: "'a gfifo \<Rightarrow> fault + (bool \<times> 'a gfifo \<times> 'a option)" where
  "gfifo_remove f =
     (let ret = \<not> (g_in f = g_out f) in
      if ret
      then bindE (load (g_data f) (uint (g_out f)))
             (\<lambda>x. Inr (ret, f\<lparr>g_out := (g_out f + 1) AND g_mask f\<rparr>, Some x))
      else Inr (ret, f, None))"

text \<open>
  \<open>gfifo_peek\<close> has no definition here.  Its guard and its source address are those of
  \<open>gfifo_remove\<close>, and it leaves the cursors alone, but its copy size is written
  \<open>sizoef (_type)\<close>: an identifier that the repository declares nowhere, applied to a
  type name.  No expansion of the macro is a C expression, so there is nothing to embed.
\<close>

text \<open>
  \<open>gfifo_insert_array\<close>, with \<open>_len\<close> an \<open>unsigned int\<close>.  The sum in the guard and
  \<open>in + _len\<close> are 32-bit sums.  In the wrapped branch the second copy reads the array
  at offset \<open>_len - (size - in)\<close>, as the source has it.
\<close>

definition gfifo_insert_array :: "'a gfifo \<Rightarrow> 'a list \<Rightarrow> u32 \<Rightarrow> fault + (bool \<times> 'a gfifo)" where
  "gfifo_insert_array f arr len =
     (let ret = (gfifo_vaild_count f + len < g_size f) in
      if ret
      then bindE
             (if g_in f + len < g_size f
              then memcpy_elems (g_data f) (unat (g_in f)) arr 0 (unat len)
              else bindE (memcpy_elems (g_data f) (unat (g_in f)) arr 0 (unat (g_size f - g_in f)))
                     (\<lambda>d. memcpy_elems d 0 arr (unat (len - (g_size f - g_in f)))
                             (unat (len - (g_size f - g_in f)))))
             (\<lambda>d. Inr (ret, f\<lparr>g_data := d, g_in := (g_in f + len) AND g_mask f\<rparr>))
      else Inr (ret, f))"

section \<open>The modulo-based variant: \<open>struct generic_fifo\<close>\<close>

record 'a generic_fifo =
  buffer :: "'a list"
  in_idx :: u32
  out_idx :: u32
  fifo_size :: u32
  user_buffer_flag :: "8 word"

definition generic_fifo_init :: "'a list \<Rightarrow> 8 word \<Rightarrow> u32 \<Rightarrow> 'a generic_fifo" where
  "generic_fifo_init buf flag sz =
     \<lparr>buffer = buf, in_idx = 0, out_idx = 0, fifo_size = sz, user_buffer_flag = flag\<rparr>"

definition generic_fifo_full :: "'a generic_fifo \<Rightarrow> fault + bool" where
  "generic_fifo_full f =
     (if fifo_size f = 0 then Inl DivideByZero
      else Inr (((in_idx f + 1) mod fifo_size f) = out_idx f))"

definition generic_fifo_empty :: "'a generic_fifo \<Rightarrow> bool" where
  "generic_fifo_empty f = (in_idx f = out_idx f)"

text \<open>The count is cast to \<open>int\<close>: the 32-bit result read as two's complement.\<close>

definition generic_fifo_valid_count :: "'a generic_fifo \<Rightarrow> fault + int" where
  "generic_fifo_valid_count f =
     (if fifo_size f = 0 then Inl DivideByZero
      else Inr (sint ((in_idx f - out_idx f + fifo_size f) mod fifo_size f)))"

text \<open>
  \<open>generic_fifo_unused_count\<close> has no definition here.  The last expression of its
  body, \<open>size - ((in_idx - out_idx + size) % size)\<close>, is not followed by a semicolon
  before the closing \<open>})\<close>, where \<open>generic_fifo_valid_count\<close> has one.  No expansion
  of the macro is a C expression, so it never returns a value and there is nothing to
  embed.
\<close>

definition generic_fifo_insert :: "'a generic_fifo \<Rightarrow> 'a \<Rightarrow> fault + (bool \<times> 'a generic_fifo)" where
  "generic_fifo_insert f v =
     bindE (generic_fifo_full f) (\<lambda>full.
       let ret = \<not> full in
       if ret
       then bindE (store (buffer f) (uint (in_idx f)) v)
              (\<lambda>d. Inr (ret, f\<lparr>buffer := d, in_idx := (in_idx f + 1) mod fifo_size f\<rparr>))
       else Inr (ret, f))"

definition generic_fifo_remove :: "'a generic_fifo \<Rightarrow> fault + (bool \<times> 'a generic_fifo \<times> 'a option)" where
  "generic_fifo_remove f =
     (let ret = \<not> generic_fifo_empty f in
      if ret
      then bindE (load (buffer f) (uint (out_idx f)))
             (\<lambda>x. if fifo_size f = 0 then Inl DivideByZero
                  else Inr (ret, f\<lparr>out_idx := (out_idx f + 1) mod fifo_size f\<rparr>, Some x))
      else Inr (ret, f, None))"

text \<open>
  \<open>generic_fifo_change\<close> and \<open>generic_fifo_select_index\<close>, with \<open>_index\<close> an \<open>int\<close>
  (given as its 32-bit pattern).  The guard compares two \<open>int\<close>s.  \<open>out_idx + _index\<close>
  inside \<open>generic_fifo_change\<close> is a 32-bit unsigned sum, reduced modulo \<open>size\<close>;
  \<open>generic_fifo_select_index\<close> adds \<open>out_idx\<close> and then \<open>_index\<close> to the buffer
  pointer, with no reduction.
\<close>

definition generic_fifo_change :: "'a generic_fifo \<Rightarrow> 'a \<Rightarrow> u32 \<Rightarrow> fault + (bool \<times> 'a generic_fifo)" where
  "generic_fifo_change f v index =
     bindE (generic_fifo_valid_count f) (\<lambda>cnt.
       let ret = (cnt > sint index) in
       if ret
       then bindE (store (buffer f) (uint ((out_idx f + index) mod fifo_size f)) v)
              (\<lambda>d. Inr (ret, f\<lparr>buffer := d\<rparr>))
       else Inr (ret, f))"

definition generic_fifo_select_index :: "'a generic_fifo \<Rightarrow> u32 \<Rightarrow> fault + (bool \<times> 'a option)" where
  "generic_fifo_select_index f index =
     bindE (generic_fifo_valid_count f) (\<lambda>cnt.
       if cnt > sint index
       then bindE (load (buffer f) (uint (out_idx f) + sint index))
              (\<lambda>x. Inr (True, Some x))
       else Inr (False, None))"

section \<open>The C# class \<open>CircularFifo\<close>\<close>

record 'a CircularFifo =
  cs_buffer :: "'a list"
  cs_inIdx :: u32
  cs_outIdx :: u32
  cs_size :: u32
  cs_capacity :: u32

text \<open>The constructor; \<open>dflt\<close> is \<open>default(T)\<close>, which fills a new array.\<close>

definition CircularFifo_new :: "'a \<Rightarrow> u32 \<Rightarrow> 'a CircularFifo" where
  "CircularFifo_new dflt capacity =
     \<lparr>cs_buffer = replicate (unat (capacity + 1)) dflt, cs_inIdx = 0, cs_outIdx = 0,
      cs_size = capacity + 1, cs_capacity = capacity\<rparr>"

definition Count :: "'a CircularFifo \<Rightarrow> fault + u32" where
  "Count f =
     (if cs_size f = 0 then Inl DivideByZero
      else Inr ((cs_inIdx f - cs_outIdx f + cs_size f) mod cs_size f))"

definition UnusedCount :: "'a CircularFifo \<Rightarrow> fault + u32" where
  "UnusedCount f = bindE (Count f) (\<lambda>c. Inr (cs_capacity f - c))"

definition IsFull :: "'a CircularFifo \<Rightarrow> fault + bool" where
  "IsFull f =
     (if cs_size f = 0 then Inl DivideByZero
      else Inr (((cs_inIdx f + 1) mod cs_size f) = cs_outIdx f))"

definition IsEmpty :: "'a CircularFifo \<Rightarrow> bool" where
  "IsEmpty f = (cs_inIdx f = cs_outIdx f)"

definition Insert :: "'a CircularFifo \<Rightarrow> 'a \<Rightarrow> fault + (bool \<times> 'a CircularFifo)" where
  "Insert f item =
     bindE (IsFull f) (\<lambda>full.
       if full then Inr (False, f)
       else bindE (store (cs_buffer f) (uint (cs_inIdx f)) item)
              (\<lambda>b. Inr (True, f\<lparr>cs_buffer := b, cs_inIdx := (cs_inIdx f + 1) mod cs_size f\<rparr>)))"

definition Remove :: "'a CircularFifo \<Rightarrow> fault + (bool \<times> 'a CircularFifo \<times> 'a option)" where
  "Remove f =
     (if IsEmpty f then Inr (False, f, None)
      else bindE (load (cs_buffer f) (uint (cs_outIdx f)))
             (\<lambda>x. if cs_size f = 0 then Inl DivideByZero
                  else Inr (True, f\<lparr>cs_outIdx := (cs_outIdx f + 1) mod cs_size f\<rparr>, Some x)))"

text \<open>
  \<open>GetValue (ref item, int index)\<close>.  \<open>index > Count ()\<close> compares an \<open>int\<close> with a
  \<open>uint\<close>, and \<open>_outIdx + index\<close> adds them: C# does both in \<open>long\<close>, where neither
  can overflow, and \<open>%\<close> truncates towards zero.
\<close>

definition GetValue :: "'a CircularFifo \<Rightarrow> u32 \<Rightarrow> fault + (bool \<times> 'a option)" where
  "GetValue f index =
     bindE (if sint index < 0 then Count f else Inr 0) (\<lambda>c.
       if sint index < 0 \<and> sint index > uint c then Inr (False, None)
       else if cs_size f = 0 then Inl DivideByZero
       else bindE (load (cs_buffer f) ((uint (cs_outIdx f) + sint index) smod uint (cs_size f)))
              (\<lambda>x. Inr (True, Some x)))"

text \<open>\<open>GetAll\<close>: the loop over \<open>i = 0 .. ret.Length - 1\<close>, stopping at the first fault.\<close>

fun GetAll_loop :: "'a CircularFifo \<Rightarrow> nat list \<Rightarrow> fault + 'a list" where
  "GetAll_loop f [] = Inr []"
| "GetAll_loop f (i # is) =
     bindE (load (cs_buffer f) ((uint (cs_outIdx f) + int i) smod uint (cs_size f)))
       (\<lambda>x. bindE (GetAll_loop f is) (\<lambda>xs. Inr (x # xs)))"

definition GetAll :: "'a CircularFifo \<Rightarrow> fault + 'a list" where
  "GetAll f = bindE (Count f) (\<lambda>c. GetAll_loop f [0 ..< unat c])"

section \<open>Sequences of operations\<close>

text \<open>
  A client that calls the single-element operations one after the other, and what it
  observes: the value each call returns and, for a remove, what was written to its
  output parameter.  The unsigned count of \<open>gfifo\<close> and of \<open>CircularFifo\<close> and the
  \<open>int\<close> count of \<open>generic_fifo\<close> are observed as integers.
\<close>

datatype 'a fifo_op = OpInsert 'a | OpRemove | OpEmpty | OpFull | OpCount

datatype 'a fifo_obs =
  ObsInsert bool | ObsRemove bool "'a option" | ObsEmpty bool | ObsFull bool | ObsCount int

fun run_ops :: "('s \<Rightarrow> 'p \<Rightarrow> fault + ('o \<times> 's)) \<Rightarrow> 's \<Rightarrow> 'p list \<Rightarrow> fault + ('o list \<times> 's)" where
  "run_ops step s [] = Inr ([], s)"
| "run_ops step s (p # ps) =
     bindE (step s p) (\<lambda>(ob, s').
       bindE (run_ops step s' ps) (\<lambda>(obs, s''). Inr (ob # obs, s'')))"

fun gfifo_step :: "'a gfifo \<Rightarrow> 'a fifo_op \<Rightarrow> fault + ('a fifo_obs \<times> 'a gfifo)" where
  "gfifo_step f (OpInsert v) = bindE (gfifo_insert f v) (\<lambda>(r, f'). Inr (ObsInsert r, f'))"
| "gfifo_step f OpRemove = bindE (gfifo_remove f) (\<lambda>(r, f', x). Inr (ObsRemove r x, f'))"
| "gfifo_step f OpEmpty = Inr (ObsEmpty (gfifo_empty f), f)"
| "gfifo_step f OpFull = Inr (ObsFull (gfifo_full f), f)"
| "gfifo_step f OpCount = Inr (ObsCount (uint (gfifo_vaild_count f)), f)"

fun generic_fifo_step :: "'a generic_fifo \<Rightarrow> 'a fifo_op \<Rightarrow> fault + ('a fifo_obs \<times> 'a generic_fifo)" where
  "generic_fifo_step f (OpInsert v) =
     bindE (generic_fifo_insert f v) (\<lambda>(r, f'). Inr (ObsInsert r, f'))"
| "generic_fifo_step f OpRemove =
     bindE (generic_fifo_remove f) (\<lambda>(r, f', x). Inr (ObsRemove r x, f'))"
| "generic_fifo_step f OpEmpty = Inr (ObsEmpty (generic_fifo_empty f), f)"
| "generic_fifo_step f OpFull = bindE (generic_fifo_full f) (\<lambda>b. Inr (ObsFull b, f))"
| "generic_fifo_step f OpCount = bindE (generic_fifo_valid_count f) (\<lambda>c. Inr (ObsCount c, f))"

fun CircularFifo_step :: "'a CircularFifo \<Rightarrow> 'a fifo_op \<Rightarrow> fault + ('a fifo_obs \<times> 'a CircularFifo)" where
  "CircularFifo_step f (OpInsert v) = bindE (Insert f v) (\<lambda>(r, f'). Inr (ObsInsert r, f'))"
| "CircularFifo_step f OpRemove = bindE (Remove f) (\<lambda>(r, f', x). Inr (ObsRemove r x, f'))"
| "CircularFifo_step f OpEmpty = Inr (ObsEmpty (IsEmpty f), f)"
| "CircularFifo_step f OpFull = bindE (IsFull f) (\<lambda>b. Inr (ObsFull b, f))"
| "CircularFifo_step f OpCount = bindE (Count f) (\<lambda>c. Inr (ObsCount (uint c), f))"

text \<open>The number of inserts, and of removes, that returned success.\<close>

fun insert_ok :: "'a fifo_obs \<Rightarrow> bool" where
  "insert_ok (ObsInsert r) = r"
| "insert_ok _ = False"

fun remove_ok :: "'a fifo_obs \<Rightarrow> bool" where
  "remove_ok (ObsRemove r x) = r"
| "remove_ok _ = False"

definition insert_successes :: "'a fifo_obs list \<Rightarrow> nat" where
  "insert_successes obs = length (filter insert_ok obs)"

definition remove_successes :: "'a fifo_obs list \<Rightarrow> nat" where
  "remove_successes obs = length (filter remove_ok obs)"

text \<open>What a client sees of a run: the observations, or the fault that ended it.\<close>

definition observations :: "fault + ('o list \<times> 's) \<Rightarrow> fault + 'o list" where
  "observations r = (case r of Inl e \<Rightarrow> Inl e | Inr (obs, s) \<Rightarrow> Inr obs)"

text \<open>
  Sequences that also (re)initialise the structure.  \<open>gfifo_init\<close> takes no ownership
  flag and ignores the one of the command.
\<close>

datatype 'a fifo_cmd = CmdInit "'a list" "8 word" u32 | CmdOp "'a fifo_op"

datatype 'a cmd_obs = ObsInit | ObsOp "'a fifo_obs"

fun gfifo_cmd :: "'a gfifo \<Rightarrow> 'a fifo_cmd \<Rightarrow> fault + ('a cmd_obs \<times> 'a gfifo)" where
  "gfifo_cmd f (CmdInit buf flag sz) = Inr (ObsInit, gfifo_init buf sz)"
| "gfifo_cmd f (CmdOp p) = bindE (gfifo_step f p) (\<lambda>(ob, f'). Inr (ObsOp ob, f'))"

fun generic_fifo_cmd :: "'a generic_fifo \<Rightarrow> 'a fifo_cmd \<Rightarrow> fault + ('a cmd_obs \<times> 'a generic_fifo)" where
  "generic_fifo_cmd f (CmdInit buf flag sz) = Inr (ObsInit, generic_fifo_init buf flag sz)"
| "generic_fifo_cmd f (CmdOp p) = bindE (generic_fifo_step f p) (\<lambda>(ob, f'). Inr (ObsOp ob, f'))"

text \<open>
  The capacity rule of the mask convention, for the initialisations of a sequence: the
  slot count is a power of two.  With \<open>storage_fits\<close> the storage bound at each
  initialisation has that many slots.
\<close>

fun pow2_init :: "'a fifo_cmd \<Rightarrow> bool" where
  "pow2_init (CmdInit buf flag sz) = (\<exists>k \<in> {0 ..< 32}. sz = 2 ^ k)"
| "pow2_init (CmdOp p) = True"

fun storage_fits :: "'a fifo_cmd \<Rightarrow> bool" where
  "storage_fits (CmdInit buf flag sz) = (length buf = unat sz)"
| "storage_fits (CmdOp p) = True"

section \<open>Invariants and the relations between the variants\<close>

text \<open>
  A well-formed \<open>generic_fifo\<close>: both cursors below the slot count, the storage of that
  many slots, and at most \<open>2 ^ 31\<close> slots.  \<open>ring_count\<close> is the number of elements
  between the cursors, computed without wrap-around.
\<close>

definition generic_fifo_wf :: "'a generic_fifo \<Rightarrow> bool" where
  "generic_fifo_wf f \<longleftrightarrow>
     in_idx f < fifo_size f \<and> out_idx f < fifo_size f \<and>
     length (buffer f) = unat (fifo_size f) \<and> unat (fifo_size f) \<le> 2 ^ 31"

definition ring_count :: "'a generic_fifo \<Rightarrow> nat" where
  "ring_count f =
     (unat (in_idx f) + unat (fifo_size f) - unat (out_idx f)) mod unat (fifo_size f)"

text \<open>Two results agree: the same fault, or the same observation and related states.\<close>

definition sim_res :: "('s \<Rightarrow> 't \<Rightarrow> bool) \<Rightarrow> fault + ('o \<times> 's) \<Rightarrow> fault + ('o \<times> 't) \<Rightarrow> bool" where
  "sim_res R x y =
     (case x of
        Inl e \<Rightarrow> y = Inl e
      | Inr (ob, s) \<Rightarrow> (case y of Inl e \<Rightarrow> False | Inr (ob', t) \<Rightarrow> ob = ob' \<and> R s t))"

text \<open>A \<open>gfifo\<close> of \<open>2 ^ k\<close> slots and a \<open>generic_fifo\<close> with the same fields.\<close>

definition gfifo_rel :: "nat \<Rightarrow> 'a gfifo \<Rightarrow> 'a generic_fifo \<Rightarrow> bool" where
  "gfifo_rel k g f \<longleftrightarrow>
     k < 32 \<and> g_size g = 2 ^ k \<and> g_mask g = 2 ^ k - 1 \<and> fifo_size f = 2 ^ k \<and>
     g_data g = buffer f \<and> g_in g = in_idx f \<and> g_out g = out_idx f"

definition gfifo_pow2_rel :: "'a gfifo \<Rightarrow> 'a generic_fifo \<Rightarrow> bool" where
  "gfifo_pow2_rel g f \<longleftrightarrow> (\<exists>k. gfifo_rel k g f)"

text \<open>The fields of a \<open>CircularFifo\<close> as a \<open>generic_fifo\<close>.\<close>

definition cs_to_generic :: "'a CircularFifo \<Rightarrow> 'a generic_fifo" where
  "cs_to_generic c =
     \<lparr>buffer = cs_buffer c, in_idx = cs_inIdx c, out_idx = cs_outIdx c, fifo_size = cs_size c,
      user_buffer_flag = 0\<rparr>"

section \<open>Auxiliary facts\<close>

subsection \<open>Faults and memory\<close>

lemma bindE_Inr [simp]: "bindE (Inr x) k = k x"
  by (simp add: bindE_def)

lemma bindE_Inl [simp]: "bindE (Inl e) k = Inl e"
  by (simp add: bindE_def)

lemma load_in_range: "i < length m \<Longrightarrow> load m (int i) = Inr (m ! i)"
  by (simp add: load_def)

lemma store_in_range: "i < length m \<Longrightarrow> store m (int i) v = Inr (m[i := v])"
  by (simp add: store_def)

lemma replicate_update_same: "(replicate N v)[k := v] = replicate N v"
  by (induction N arbitrary: k) (auto split: nat.split)

subsection \<open>32-bit arithmetic\<close>

lemma pow2_mask_mod: "(x::u32) AND (2 ^ k - 1) = x mod 2 ^ k"
  by (simp flip: mask_eq_exp_minus_1 take_bit_eq_mask add: take_bit_eq_mod)

lemma unat_pow2:
  assumes "k < 32"
  shows "unat ((2::u32) ^ k) = 2 ^ k"
proof (rule of_nat_inverse)
  show "word_of_nat (2 ^ k) = (2::u32) ^ k" by simp
  show "(2::nat) ^ k < 2 ^ LENGTH(32)"
    using assms by (simp only: len_bit0 len_num1 power_strict_increasing_iff)
qed

lemma pow2_le:
  assumes "k < 32"
  shows "unat ((2::u32) ^ k) \<le> 2 ^ 31"
proof -
  have "(2::nat) ^ k \<le> 2 ^ 31" by (rule power_increasing) (use assms in simp_all)
  then show ?thesis by (simp only: unat_pow2 [OF assms])
qed

lemma pow2_count:
  fixes a :: u32
  assumes "k < 32"
  shows "(a + 2 ^ k) mod 2 ^ k = a mod 2 ^ k"
proof -
  have d: "(2::nat) ^ k dvd 2 ^ 32"
    by (rule le_imp_power_dvd) (use assms in simp)
  have p: "unat ((2::u32) ^ k) = 2 ^ k"
    using assms by (rule unat_pow2)
  have "unat ((a + 2 ^ k) mod 2 ^ k) = ((unat a + 2 ^ k) mod 2 ^ 32) mod 2 ^ k"
    by (simp add: unat_mod unat_word_ariths p)
  also have "\<dots> = (unat a + 2 ^ k) mod 2 ^ k"
    using d by (simp add: mod_mod_cancel)
  also have "\<dots> = unat (a mod 2 ^ k)"
    by (simp add: unat_mod p)
  finally show ?thesis by (simp add: word_unat_eq_iff)
qed

lemma sint_small:
  fixes w :: u32
  assumes "unat w < 2 ^ 31"
  shows "sint w = int (unat w)"
proof -
  have "int (unat w) < int (2 ^ 31)" using assms by (simp only: of_nat_less_iff)
  then have "uint w < 2 ^ 31" by simp
  moreover have "- (2 ^ 31) \<le> uint w"
    by (rule order_trans [of _ 0]) simp_all
  ultimately have "signed_take_bit 31 (uint w) = uint w"
    by (intro signed_take_bit_int_eq_self)
  then show ?thesis by (simp add: sint_uint)
qed

lemma pow2_mod_count_small:
  fixes a :: u32
  assumes "k < 32"
  shows "sint (a mod 2 ^ k) = uint (a mod 2 ^ k)"
proof -
  have "unat (a mod 2 ^ k) < unat ((2::u32) ^ k)"
    using assms by (simp add: unat_mod unat_pow2)
  also have "\<dots> \<le> 2 ^ 31" by (rule pow2_le [OF assms])
  finally have "sint (a mod 2 ^ k) = int (unat (a mod 2 ^ k))" by (rule sint_small)
  then show ?thesis by simp
qed

lemma word_succ_mod:
  fixes x sz :: u32
  assumes "x < sz"
  shows "unat ((x + 1) mod sz) = (unat x + 1) mod unat sz"
proof -
  have "unat x < unat sz" using assms by (simp add: word_less_nat_alt)
  moreover have "unat sz < 2 ^ 32" using unsigned_less [of sz] by simp
  ultimately have "unat (x + 1) = unat x + 1"
    by (simp add: unat_word_ariths)
  then show ?thesis by (simp add: unat_mod)
qed

lemma word_succ_less:
  fixes i sz :: u32
  assumes "unat i + 1 < unat sz"
  shows "(i + 1) mod sz = i + 1" "i + 1 \<noteq> 0" "sz \<noteq> 0" "unat (i + 1) = unat i + 1"
proof -
  have "unat sz < 2 ^ 32" using unsigned_less [of sz] by simp
  with assms have u: "unat (i + 1) = unat i + 1" by (simp add: unat_word_ariths)
  then have "unat ((i + 1) mod sz) = unat (i + 1)" using assms by (simp add: unat_mod)
  then show "(i + 1) mod sz = i + 1" by (simp add: word_unat_eq_iff)
  show "i + 1 \<noteq> 0" using u by (metis Suc_eq_plus1 nat.simps(3) unat_0)
  show "sz \<noteq> 0" using assms by auto
  show "unat (i + 1) = unat i + 1" by (rule u)
qed

lemma word_count_mod:
  fixes x y sz :: u32
  assumes "x < sz" "y < sz" "unat sz \<le> 2 ^ 31"
  shows "unat ((x - y + sz) mod sz) = (unat x + unat sz - unat y) mod unat sz"
proof -
  have xy: "unat x < unat sz" "unat y < unat sz"
    using assms by (simp_all add: word_less_nat_alt)
  have "x - y + sz = word_of_nat (unat x + unat sz - unat y)"
    using xy by (simp add: of_nat_diff)
  moreover have "unat x + unat sz - unat y < 2 ^ 32"
    using xy assms(3) by simp
  ultimately have "unat (x - y + sz) = unat x + unat sz - unat y"
    by (simp add: unat_of_nat take_bit_nat_eq_self)
  then show ?thesis by (simp add: unat_mod)
qed

subsection \<open>Counting on a ring of \<open>N\<close> slots\<close>

lemma ring_count_if:
  fixes i out N :: nat
  assumes "i < N" "out < N"
  shows "(i + N - out) mod N = (if out \<le> i then i - out else i + N - out)"
proof (cases "out \<le> i")
  case True
  then have "i + N - out = (i - out) + N" by simp
  then have "(i + N - out) mod N = (i - out) mod N" by simp
  with True assms show ?thesis by simp
next
  case False
  with assms show ?thesis by simp
qed

lemma ring_succ_if:
  fixes i N :: nat
  assumes "i < N"
  shows "(i + 1) mod N = (if i + 1 = N then 0 else i + 1)"
  using assms by (auto simp: mod_if)

lemma ring_insert:
  fixes i out N :: nat
  assumes "i < N" "out < N" "(i + 1) mod N \<noteq> out"
  shows "((i + 1) mod N + N - out) mod N = (i + N - out) mod N + 1"
proof -
  have s: "(i + 1) mod N < N" using assms(1) by simp
  have "((i + 1) mod N + N - out) mod N =
        (if out \<le> (i + 1) mod N then (i + 1) mod N - out else (i + 1) mod N + N - out)"
    by (rule ring_count_if [OF s assms(2)])
  moreover have "(i + N - out) mod N = (if out \<le> i then i - out else i + N - out)"
    by (rule ring_count_if [OF assms(1,2)])
  moreover note ring_succ_if [OF assms(1)]
  ultimately show ?thesis
    using assms by (auto split: if_splits)
qed

lemma ring_remove:
  fixes i out N :: nat
  assumes "i < N" "out < N" "i \<noteq> out"
  shows "(i + N - (out + 1) mod N) mod N + 1 = (i + N - out) mod N"
proof -
  have s: "(out + 1) mod N < N" using assms(2) by simp
  have "(i + N - (out + 1) mod N) mod N =
        (if (out + 1) mod N \<le> i then i - (out + 1) mod N else i + N - (out + 1) mod N)"
    by (rule ring_count_if [OF assms(1) s])
  moreover have "(i + N - out) mod N = (if out \<le> i then i - out else i + N - out)"
    by (rule ring_count_if [OF assms(1,2)])
  moreover note ring_succ_if [OF assms(2)]
  ultimately show ?thesis
    using assms by (auto split: if_splits)
qed

subsection \<open>Runs\<close>

lemma run_ops_invariant:
  assumes step: "\<And>s p. I s \<Longrightarrow> \<exists>ob s'. step s p = Inr (ob, s') \<and> I s' \<and>
            c s' + (if remove_ok ob then 1 else 0) = c s + (if insert_ok ob then (1::nat) else 0)"
    and "I s"
  shows "\<exists>obs s'. run_ops step s ps = Inr (obs, s') \<and> I s' \<and>
           c s' + remove_successes obs = c s + insert_successes obs"
  using assms(2)
proof (induction ps arbitrary: s)
  case Nil
  then show ?case by (simp add: insert_successes_def remove_successes_def)
next
  case (Cons p ps)
  from step [OF Cons.prems, of p] obtain ob s1 where
    s1: "step s p = Inr (ob, s1)" "I s1"
    "c s1 + (if remove_ok ob then 1 else 0) = c s + (if insert_ok ob then 1 else 0)"
    by blast
  from Cons.IH [OF s1(2)] obtain obs s2 where
    s2: "run_ops step s1 ps = Inr (obs, s2)" "I s2"
    "c s2 + remove_successes obs = c s1 + insert_successes obs"
    by blast
  have "run_ops step s (p # ps) = Inr (ob # obs, s2)"
    using s1(1) s2(1) by simp
  moreover have "c s2 + remove_successes (ob # obs) = c s + insert_successes (ob # obs)"
    using s1(3) s2(3) by (simp add: insert_successes_def remove_successes_def split: if_splits)
  ultimately show ?case using s2(2) by blast
qed

lemma run_ops_total:
  assumes step: "\<And>s p. I s \<Longrightarrow> P p \<Longrightarrow> \<exists>ob s'. step s p = Inr (ob, s') \<and> I s'"
    and "I s" "list_all P ps"
  shows "\<exists>obs s'. run_ops step s ps = Inr (obs, s') \<and> I s'"
  using assms(2,3)
proof (induction ps arbitrary: s)
  case Nil
  then show ?case by simp
next
  case (Cons p ps)
  from step [of s p] Cons.prems obtain ob s1 where s1: "step s p = Inr (ob, s1)" "I s1"
    by auto
  from Cons.IH [OF s1(2)] Cons.prems obtain obs s2 where
    "run_ops step s1 ps = Inr (obs, s2)" "I s2" by auto
  with s1(1) show ?case by simp
qed

lemma sim_res_InrD:
  "sim_res R x (Inr (ob, t)) \<Longrightarrow> \<exists>s. x = Inr (ob, s) \<and> R s t"
  by (auto simp: sim_res_def split: sum.splits prod.splits)

lemma sim_res_observations:
  "sim_res R x y \<Longrightarrow> observations x = observations y"
  by (auto simp: sim_res_def observations_def split: sum.splits prod.splits)

lemma run_ops_sim:
  assumes step: "\<And>s t p. R s t \<Longrightarrow> P p \<Longrightarrow> sim_res R (step1 s p) (step2 t p)"
    and "R s t" "list_all P ps"
  shows "sim_res R (run_ops step1 s ps) (run_ops step2 t ps)"
  using assms(2,3)
proof (induction ps arbitrary: s t)
  case Nil
  then show ?case by (simp add: sim_res_def)
next
  case (Cons p ps)
  have sp: "sim_res R (step1 s p) (step2 t p)"
    using step [of s t p] Cons.prems by simp
  have rest: "list_all P ps" using Cons.prems by simp
  show ?case
  proof (cases "step1 s p")
    case (Inl e)
    with sp show ?thesis by (simp add: sim_res_def)
  next
    case (Inr r)
    obtain ob s1 where r: "r = (ob, s1)" by (cases r)
    with Inr sp obtain t1 where
      t1: "step2 t p = Inr (ob, t1)" "R s1 t1"
      by (auto simp: sim_res_def split: sum.splits)
    have ih: "sim_res R (run_ops step1 s1 ps) (run_ops step2 t1 ps)"
      by (rule Cons.IH [OF t1(2) rest])
    show ?thesis
    proof (cases "run_ops step1 s1 ps")
      case (Inl e)
      with ih have "run_ops step2 t1 ps = Inl e" by (simp add: sim_res_def)
      with Inl Inr r t1(1) show ?thesis by (simp add: sim_res_def)
    next
      case (Inr q)
      obtain obs s2 where q: "q = (obs, s2)" by (cases q)
      with Inr ih obtain t2 where "run_ops step2 t1 ps = Inr (obs, t2)" "R s2 t2"
        by (auto simp: sim_res_def split: sum.splits)
      with Inr q \<open>step1 s p = Inr r\<close> r t1(1) show ?thesis by (simp add: sim_res_def)
    qed
  qed
qed

subsection \<open>The invariant of \<open>generic_fifo\<close>\<close>

lemma wf_size_nz: "generic_fifo_wf f \<Longrightarrow> fifo_size f \<noteq> 0"
  by (auto simp: generic_fifo_wf_def)

lemma wf_nat:
  assumes "generic_fifo_wf f"
  shows "unat (in_idx f) < unat (fifo_size f)" "unat (out_idx f) < unat (fifo_size f)"
  using assms by (auto simp: generic_fifo_wf_def word_less_nat_alt)

lemma ring_count_less: "generic_fifo_wf f \<Longrightarrow> ring_count f < unat (fifo_size f)"
  unfolding ring_count_def generic_fifo_wf_def
  by (simp add: word_less_nat_alt)

lemma count_word_ring:
  assumes "generic_fifo_wf f"
  shows "unat ((in_idx f - out_idx f + fifo_size f) mod fifo_size f) = ring_count f"
  using assms unfolding ring_count_def generic_fifo_wf_def by (simp add: word_count_mod)

lemma count_word_small:
  assumes "generic_fifo_wf f"
  shows "sint ((in_idx f - out_idx f + fifo_size f) mod fifo_size f) = int (ring_count f)"
proof -
  let ?c = "(in_idx f - out_idx f + fifo_size f) mod fifo_size f"
  have "ring_count f < 2 ^ 31"
    using ring_count_less [OF assms] assms by (simp add: generic_fifo_wf_def)
  then have "unat ?c < 2 ^ 31" using count_word_ring [OF assms] by simp
  then have "sint ?c = int (unat ?c)" by (rule sint_small)
  then show ?thesis using count_word_ring [OF assms] by simp
qed

lemma count_word_sint_uint:
  assumes "generic_fifo_wf f"
  shows "sint ((in_idx f - out_idx f + fifo_size f) mod fifo_size f)
       = uint ((in_idx f - out_idx f + fifo_size f) mod fifo_size f)"
proof -
  let ?c = "(in_idx f - out_idx f + fifo_size f) mod fifo_size f"
  have "ring_count f < 2 ^ 31"
    using ring_count_less [OF assms] assms by (simp add: generic_fifo_wf_def)
  then have "unat ?c < 2 ^ 31" using count_word_ring [OF assms] by simp
  then have "sint ?c = int (unat ?c)" by (rule sint_small)
  then show ?thesis by simp
qed

lemma valid_count_ring:
  assumes "generic_fifo_wf f"
  shows "generic_fifo_valid_count f = Inr (int (ring_count f))"
  using count_word_small [OF assms] wf_size_nz [OF assms]
  by (simp add: generic_fifo_valid_count_def)

lemma generic_init_wf:
  assumes "sz \<noteq> 0" "unat sz \<le> 2 ^ 31" "length buf = unat sz"
  shows "generic_fifo_wf (generic_fifo_init buf flag sz)"
    and "ring_count (generic_fifo_init buf flag sz) = 0"
  using assms
  by (simp_all add: generic_fifo_wf_def generic_fifo_init_def ring_count_def word_greater_zero_iff)

lemma generic_insert_wf:
  assumes wf: "generic_fifo_wf f"
  shows "\<exists>r f'. generic_fifo_insert f v = Inr (r, f') \<and> generic_fifo_wf f' \<and>
           fifo_size f' = fifo_size f \<and>
           ring_count f' = ring_count f + (if r then 1 else 0)"
proof (cases "(in_idx f + 1) mod fifo_size f = out_idx f")
  case True
  then have "generic_fifo_insert f v = Inr (False, f)"
    using wf_size_nz [OF wf] by (simp add: generic_fifo_insert_def generic_fifo_full_def)
  with wf show ?thesis by (intro exI [of _ False] exI [of _ f]) simp
next
  case False
  let ?f' = "f\<lparr>buffer := (buffer f)[unat (in_idx f) := v], in_idx := (in_idx f + 1) mod fifo_size f\<rparr>"
  have lt: "in_idx f < fifo_size f" "out_idx f < fifo_size f"
    and len: "length (buffer f) = unat (fifo_size f)"
    using wf by (simp_all add: generic_fifo_wf_def)
  have st: "store (buffer f) (uint (in_idx f)) v = Inr ((buffer f)[unat (in_idx f) := v])"
    using store_in_range [of "unat (in_idx f)" "buffer f" v] wf_nat(1) [OF wf] len by simp
  have run: "generic_fifo_insert f v = Inr (True, ?f')"
    using False wf_size_nz [OF wf] st
    by (simp add: generic_fifo_insert_def generic_fifo_full_def)
  have nz: "0 < fifo_size f" using wf_size_nz [OF wf] by (simp add: word_greater_zero_iff)
  have wf': "generic_fifo_wf ?f'"
    using wf nz by (simp add: generic_fifo_wf_def word_mod_less_divisor)
  have s: "unat ((in_idx f + 1) mod fifo_size f) = (unat (in_idx f) + 1) mod unat (fifo_size f)"
    by (rule word_succ_mod [OF lt(1)])
  have ne: "(unat (in_idx f) + 1) mod unat (fifo_size f) \<noteq> unat (out_idx f)"
    using False s by (metis word_unat_eq_iff)
  have "ring_count ?f' = ring_count f + 1"
    using ring_insert [OF wf_nat(1) [OF wf] wf_nat(2) [OF wf] ne] s
    by (simp add: ring_count_def)
  with run wf' show ?thesis by auto
qed

lemma generic_remove_wf:
  assumes wf: "generic_fifo_wf f"
  shows "\<exists>r f' x. generic_fifo_remove f = Inr (r, f', x) \<and> generic_fifo_wf f' \<and>
           fifo_size f' = fifo_size f \<and>
           ring_count f' + (if r then 1 else 0) = ring_count f"
proof (cases "in_idx f = out_idx f")
  case True
  then have "generic_fifo_remove f = Inr (False, f, None)"
    by (simp add: generic_fifo_remove_def generic_fifo_empty_def)
  with wf show ?thesis by (intro exI [of _ False] exI [of _ f] exI [of _ None]) simp
next
  case False
  let ?f' = "f\<lparr>out_idx := (out_idx f + 1) mod fifo_size f\<rparr>"
  have lt: "in_idx f < fifo_size f" "out_idx f < fifo_size f"
    and len: "length (buffer f) = unat (fifo_size f)"
    using wf by (simp_all add: generic_fifo_wf_def)
  have ld: "load (buffer f) (uint (out_idx f)) = Inr (buffer f ! unat (out_idx f))"
    using load_in_range [of "unat (out_idx f)" "buffer f"] wf_nat(2) [OF wf] len by simp
  have run: "generic_fifo_remove f = Inr (True, ?f', Some (buffer f ! unat (out_idx f)))"
    using False wf_size_nz [OF wf] ld
    by (simp add: generic_fifo_remove_def generic_fifo_empty_def)
  have nz: "0 < fifo_size f" using wf_size_nz [OF wf] by (simp add: word_greater_zero_iff)
  have wf': "generic_fifo_wf ?f'"
    using wf nz by (simp add: generic_fifo_wf_def word_mod_less_divisor)
  have s: "unat ((out_idx f + 1) mod fifo_size f) = (unat (out_idx f) + 1) mod unat (fifo_size f)"
    by (rule word_succ_mod [OF lt(2)])
  have ne: "unat (in_idx f) \<noteq> unat (out_idx f)"
    using False by (simp add: word_unat_eq_iff)
  have "ring_count ?f' + 1 = ring_count f"
    using ring_remove [OF wf_nat(1) [OF wf] wf_nat(2) [OF wf] ne] s
    by (simp add: ring_count_def)
  with run wf' show ?thesis by auto
qed

lemma generic_step_wf:
  assumes wf: "generic_fifo_wf f"
  shows "\<exists>ob f'. generic_fifo_step f p = Inr (ob, f') \<and>
           (generic_fifo_wf f' \<and> fifo_size f' = fifo_size f) \<and>
           ring_count f' + (if remove_ok ob then 1 else 0) =
           ring_count f + (if insert_ok ob then 1 else 0)"
proof (cases p)
  case (OpInsert v)
  from generic_insert_wf [OF wf, of v] obtain r f' where
    "generic_fifo_insert f v = Inr (r, f')" "generic_fifo_wf f'" "fifo_size f' = fifo_size f"
    "ring_count f' = ring_count f + (if r then 1 else 0)" by blast
  with OpInsert show ?thesis by simp
next
  case OpRemove
  from generic_remove_wf [OF wf] obtain r f' x where
    "generic_fifo_remove f = Inr (r, f', x)" "generic_fifo_wf f'" "fifo_size f' = fifo_size f"
    "ring_count f' + (if r then 1 else 0) = ring_count f" by blast
  with OpRemove show ?thesis by simp
next
  case OpEmpty
  with wf show ?thesis by simp
next
  case OpFull
  with wf wf_size_nz [OF wf] show ?thesis by (simp add: generic_fifo_full_def)
next
  case OpCount
  with wf valid_count_ring [OF wf] show ?thesis by simp
qed

lemma generic_run_wf:
  assumes "generic_fifo_wf f"
  shows "\<exists>obs f'. run_ops generic_fifo_step f ps = Inr (obs, f') \<and>
           (generic_fifo_wf f' \<and> fifo_size f' = fifo_size f) \<and>
           ring_count f' + remove_successes obs = ring_count f + insert_successes obs"
proof (rule run_ops_invariant [where I = "\<lambda>h. generic_fifo_wf h \<and> fifo_size h = fifo_size f"])
  show "generic_fifo_wf f \<and> fifo_size f = fifo_size f" using assms by simp
next
  fix s :: "'a generic_fifo" and p
  assume "generic_fifo_wf s \<and> fifo_size s = fifo_size f"
  then show "\<exists>ob s'. generic_fifo_step s p = Inr (ob, s') \<and>
      (generic_fifo_wf s' \<and> fifo_size s' = fifo_size f) \<and>
      ring_count s' + (if remove_ok ob then 1 else 0) = ring_count s + (if insert_ok ob then 1 else 0)"
    using generic_step_wf [of s p] by auto
qed

text \<open>Filling a fresh buffer: \<open>n\<close> inserts while the write cursor stays below the last slot.\<close>

lemma generic_fill:
  fixes sz i :: u32
  assumes "unat i + n < unat sz"
  shows "run_ops generic_fifo_step
           \<lparr>buffer = replicate (unat sz) v, in_idx = i, out_idx = 0, fifo_size = sz,
            user_buffer_flag = fl\<rparr>
           (replicate n (OpInsert v))
         = Inr (replicate n (ObsInsert True),
             \<lparr>buffer = replicate (unat sz) v, in_idx = i + of_nat n, out_idx = 0, fifo_size = sz,
              user_buffer_flag = fl\<rparr>)"
  using assms
proof (induction n arbitrary: i)
  case 0
  then show ?case by simp
next
  case (Suc n)
  let ?f = "\<lambda>j. \<lparr>buffer = replicate (unat sz) v, in_idx = j, out_idx = 0, fifo_size = sz,
            user_buffer_flag = fl\<rparr>"
  have lt: "unat i + 1 < unat sz" using Suc.prems by simp
  have st: "store (replicate (unat sz) v) (uint i) v = Inr (replicate (unat sz) v)"
    using store_in_range [of "unat i" "replicate (unat sz) v" v] lt
    by (simp add: replicate_update_same)
  have one: "generic_fifo_step (?f i) (OpInsert v) = Inr (ObsInsert True, ?f (i + 1))"
    using word_succ_less [OF lt] st
    by (simp add: generic_fifo_insert_def generic_fifo_full_def)
  have u: "unat (i + 1) = unat i + 1" by (rule word_succ_less(4) [OF lt])
  have "unat (i + 1) + n < unat sz" using Suc.prems u by simp
  from Suc.IH [OF this] one show ?case by (simp add: add.assoc)
qed

lemma insert_successes_replicate:
  "insert_successes (replicate n (ObsInsert True)) = n"
  "remove_successes (replicate n (ObsInsert True)) = 0"
  by (induction n) (simp_all add: insert_successes_def remove_successes_def)

subsection \<open>\<open>gfifo\<close> of a power-of-two size against \<open>generic_fifo\<close>\<close>

lemma gfifo_step_sim:
  assumes "gfifo_rel k g f"
  shows "sim_res (gfifo_rel k) (gfifo_step g p) (generic_fifo_step f p)"
proof -
  have k: "k < 32" and nz: "fifo_size f \<noteq> 0" and sz: "fifo_size f = 2 ^ k"
    and m: "g_mask g = 2 ^ k - 1"
    and eqs: "g_data g = buffer f" "g_in g = in_idx f" "g_out g = out_idx f"
    using assms by (simp_all add: gfifo_rel_def)
  show ?thesis
  proof (cases p)
    case (OpInsert v)
    then show ?thesis
      using assms k nz
      by (cases "store (buffer f) (uint (in_idx f)) v")
        (simp_all add: Let_def gfifo_rel_def sim_res_def gfifo_insert_def generic_fifo_insert_def
          generic_fifo_full_def pow2_mask_mod)
  next
    case OpRemove
    then show ?thesis
      using assms k nz
      by (cases "load (buffer f) (uint (out_idx f))")
        (simp_all add: Let_def gfifo_rel_def sim_res_def gfifo_remove_def generic_fifo_remove_def
          generic_fifo_empty_def pow2_mask_mod)
  next
    case OpEmpty
    then show ?thesis
      using assms by (simp add: gfifo_rel_def sim_res_def gfifo_empty_def generic_fifo_empty_def)
  next
    case OpFull
    then show ?thesis
      using assms k nz
      by (simp add: gfifo_rel_def sim_res_def gfifo_full_def generic_fifo_full_def pow2_mask_mod)
  next
    case OpCount
    have "(g_in g - g_out g) AND g_mask g = (in_idx f - out_idx f + fifo_size f) mod fifo_size f"
      using eqs by (simp add: m sz pow2_mask_mod pow2_count [OF k])
    moreover have "sint ((in_idx f - out_idx f + fifo_size f) mod fifo_size f)
        = uint ((in_idx f - out_idx f + fifo_size f) mod fifo_size f)"
      unfolding sz by (rule pow2_mod_count_small [OF k])
    ultimately show ?thesis
      using OpCount assms nz
      by (simp add: sim_res_def gfifo_vaild_count_def generic_fifo_valid_count_def)
  qed
qed

lemma gfifo_init_rel:
  assumes "k < 32"
  shows "gfifo_rel k (gfifo_init buf (2 ^ k)) (generic_fifo_init buf flag (2 ^ k))"
  using assms by (simp add: gfifo_rel_def gfifo_init_def generic_fifo_init_def)

lemma gfifo_rel_count:
  assumes "gfifo_rel k g f" "generic_fifo_wf f"
  shows "unat (gfifo_vaild_count g) = ring_count f"
proof -
  have k: "k < 32" and sz: "fifo_size f = 2 ^ k" and m: "g_mask g = 2 ^ k - 1"
    and eqs: "g_in g = in_idx f" "g_out g = out_idx f"
    using assms(1) by (simp_all add: gfifo_rel_def)
  have "(g_in g - g_out g) AND g_mask g = (in_idx f - out_idx f + fifo_size f) mod fifo_size f"
    using eqs by (simp add: m sz pow2_mask_mod pow2_count [OF k])
  then show ?thesis
    using count_word_ring [OF assms(2)] by (simp add: gfifo_vaild_count_def)
qed

subsection \<open>\<open>CircularFifo\<close> against \<open>generic_fifo\<close>\<close>

lemma cs_step_generic:
  assumes wf: "generic_fifo_wf (cs_to_generic c)"
  shows "map_sum id (map_prod id cs_to_generic) (CircularFifo_step c p)
         = generic_fifo_step (cs_to_generic c) p"
proof (cases p)
  case (OpInsert v)
  then show ?thesis
    by (cases "store (cs_buffer c) (uint (cs_inIdx c)) v")
      (simp_all add: cs_to_generic_def Insert_def IsFull_def generic_fifo_insert_def
        generic_fifo_full_def Let_def)
next
  case OpRemove
  then show ?thesis
    by (cases "load (cs_buffer c) (uint (cs_outIdx c))")
      (simp_all add: cs_to_generic_def Remove_def IsEmpty_def generic_fifo_remove_def
        generic_fifo_empty_def Let_def)
next
  case OpEmpty
  then show ?thesis by (simp add: cs_to_generic_def IsEmpty_def generic_fifo_empty_def)
next
  case OpFull
  then show ?thesis by (simp add: cs_to_generic_def IsFull_def generic_fifo_full_def)
next
  case OpCount
  have "sint ((cs_inIdx c - cs_outIdx c + cs_size c) mod cs_size c)
      = uint ((cs_inIdx c - cs_outIdx c + cs_size c) mod cs_size c)"
    using count_word_sint_uint [OF wf] by (simp add: cs_to_generic_def)
  with OpCount show ?thesis
    by (simp add: cs_to_generic_def Count_def generic_fifo_valid_count_def)
qed

lemma cs_step_wf:
  assumes wf: "generic_fifo_wf (cs_to_generic c)"
  shows "\<exists>ob c'. CircularFifo_step c p = Inr (ob, c') \<and>
           (generic_fifo_wf (cs_to_generic c') \<and> cs_size c' = cs_size c) \<and>
           ring_count (cs_to_generic c') + (if remove_ok ob then 1 else 0) =
           ring_count (cs_to_generic c) + (if insert_ok ob then 1 else 0)"
proof -
  from generic_step_wf [OF wf, of p] obtain ob f' where
    g: "generic_fifo_step (cs_to_generic c) p = Inr (ob, f')"
      "generic_fifo_wf f' \<and> fifo_size f' = cs_size c"
      "ring_count f' + (if remove_ok ob then 1 else 0) =
       ring_count (cs_to_generic c) + (if insert_ok ob then 1 else 0)"
    by (auto simp: cs_to_generic_def)
  have "map_sum id (map_prod id cs_to_generic) (CircularFifo_step c p) = Inr (ob, f')"
    using cs_step_generic [OF wf, of p] g(1) by simp
  then obtain c' where "CircularFifo_step c p = Inr (ob, c')" "cs_to_generic c' = f'"
    by (cases "CircularFifo_step c p") auto
  with g(2,3) show ?thesis by (auto simp: cs_to_generic_def)
qed

lemma cs_run_wf:
  assumes "generic_fifo_wf (cs_to_generic c)"
  shows "\<exists>obs c'. run_ops CircularFifo_step c ps = Inr (obs, c') \<and>
           (generic_fifo_wf (cs_to_generic c') \<and> cs_size c' = cs_size c) \<and>
           ring_count (cs_to_generic c') + remove_successes obs =
           ring_count (cs_to_generic c) + insert_successes obs"
proof (rule run_ops_invariant
    [where I = "\<lambda>h. generic_fifo_wf (cs_to_generic h) \<and> cs_size h = cs_size c"
       and c = "\<lambda>h. ring_count (cs_to_generic h)"])
  show "generic_fifo_wf (cs_to_generic c) \<and> cs_size c = cs_size c" using assms by simp
next
  fix s :: "'a CircularFifo" and p
  assume "generic_fifo_wf (cs_to_generic s) \<and> cs_size s = cs_size c"
  then show "\<exists>ob s'. CircularFifo_step s p = Inr (ob, s') \<and>
      (generic_fifo_wf (cs_to_generic s') \<and> cs_size s' = cs_size c) \<and>
      ring_count (cs_to_generic s') + (if remove_ok ob then 1 else 0) =
      ring_count (cs_to_generic s) + (if insert_ok ob then 1 else 0)"
    using cs_step_wf [of s p] by auto
qed

lemma cs_step_capacity:
  assumes "CircularFifo_step c p = Inr (ob, c')"
  shows "cs_capacity c' = cs_capacity c"
proof (cases p)
  case (OpInsert v)
  with assms show ?thesis
    by (auto simp: Insert_def IsFull_def bindE_def split: if_splits sum.splits)
next
  case OpRemove
  with assms show ?thesis
    by (auto simp: Remove_def bindE_def split: if_splits sum.splits)
next
  case OpEmpty
  with assms show ?thesis by simp
next
  case OpFull
  with assms show ?thesis by (auto simp: IsFull_def split: if_splits)
next
  case OpCount
  with assms show ?thesis by (auto simp: Count_def split: if_splits)
qed

lemma cs_run_capacity:
  assumes "run_ops CircularFifo_step c ps = Inr (obs, c')"
  shows "cs_capacity c' = cs_capacity c"
  using assms
proof (induction ps arbitrary: c obs)
  case Nil
  then show ?case by simp
next
  case (Cons p ps)
  from Cons.prems obtain ob c1 obs1 where
    s: "CircularFifo_step c p = Inr (ob, c1)" and r: "run_ops CircularFifo_step c1 ps = Inr (obs1, c')"
    by (auto simp: bindE_def split: sum.splits prod.splits)
  from Cons.IH [OF r] cs_step_capacity [OF s] show ?case by simp
qed

text \<open>
  \<open>UnusedCount\<close> on every state that a fresh \<open>CircularFifo\<close> reaches: together with the
  count it makes up the capacity, which is one less than the slot count.
\<close>

lemma CircularFifo_unused_count:
  assumes cap: "unat capacity < 2 ^ 31"
  shows "\<exists>obs c cnt un. run_ops CircularFifo_step (CircularFifo_new dflt capacity) ps = Inr (obs, c) \<and>
           Count c = Inr cnt \<and> UnusedCount c = Inr un \<and>
           uint un + uint cnt = uint (cs_size c) - 1 \<and> uint (cs_size c) - 1 = uint capacity"
proof -
  let ?c0 = "CircularFifo_new dflt capacity"
  have u1: "unat (capacity + 1) = unat capacity + 1"
    using cap by (simp add: unat_word_ariths)
  have wf0: "generic_fifo_wf (cs_to_generic ?c0)"
    using cap u1
    by (simp add: generic_fifo_wf_def cs_to_generic_def CircularFifo_new_def word_less_nat_alt)
  from cs_run_wf [OF wf0, of ps] obtain obs c where
    r: "run_ops CircularFifo_step ?c0 ps = Inr (obs, c)" "generic_fifo_wf (cs_to_generic c)"
      "cs_size c = cs_size ?c0"
    by blast
  have capc: "cs_capacity c = capacity"
    using cs_run_capacity [OF r(1)] by (simp add: CircularFifo_new_def)
  have sz: "cs_size c = capacity + 1" using r(3) by (simp add: CircularFifo_new_def)
  let ?cnt = "(cs_inIdx c - cs_outIdx c + cs_size c) mod cs_size c"
  have nz: "cs_size c \<noteq> 0" using wf_size_nz [OF r(2)] by (simp add: cs_to_generic_def)
  have cnt: "Count c = Inr ?cnt" using nz by (simp add: Count_def)
  have un: "UnusedCount c = Inr (capacity - ?cnt)" using cnt capc by (simp add: UnusedCount_def)
  have "unat ?cnt = ring_count (cs_to_generic c)"
    using count_word_ring [OF r(2)] by (simp add: cs_to_generic_def)
  moreover have "ring_count (cs_to_generic c) < unat capacity + 1"
    using ring_count_less [OF r(2)] sz u1 by (simp add: cs_to_generic_def)
  ultimately have le: "unat ?cnt \<le> unat capacity" by simp
  then have "?cnt \<le> capacity" by (simp add: word_le_nat_alt)
  then have "unat (capacity - ?cnt) = unat capacity - unat ?cnt" by (rule unat_sub)
  with le have "unat (capacity - ?cnt) + unat ?cnt = unat capacity" by simp
  then have "int (unat (capacity - ?cnt)) + int (unat ?cnt) = int (unat capacity)"
    by (metis of_nat_add)
  then have sum: "uint (capacity - ?cnt) + uint ?cnt = uint capacity" by simp
  have "int (unat (capacity + 1)) = int (unat capacity) + 1" using u1 by simp
  then have "uint (cs_size c) - 1 = uint capacity" using sz by simp
  with r(1) cnt un sum show ?thesis by auto
qed

subsection \<open>Runs from a fresh buffer, and runs with initialisations\<close>

lemma generic_count_run:
  assumes "sz \<noteq> 0" "unat sz \<le> 2 ^ 31" "length buf = unat sz"
  shows "\<exists>obs f. run_ops generic_fifo_step (generic_fifo_init buf flag sz) ps = Inr (obs, f) \<and>
           generic_fifo_wf f \<and> fifo_size f = sz \<and>
           int (ring_count f) = int (insert_successes obs) - int (remove_successes obs) \<and>
           ring_count f < unat sz"
proof -
  let ?f0 = "generic_fifo_init buf flag sz"
  have wf0: "generic_fifo_wf ?f0" and c0: "ring_count ?f0 = 0"
    using assms by (rule generic_init_wf)+
  have s0: "fifo_size ?f0 = sz" by (simp add: generic_fifo_init_def)
  from generic_run_wf [OF wf0, of ps] obtain obs f where
    r: "run_ops generic_fifo_step ?f0 ps = Inr (obs, f)" "generic_fifo_wf f"
      "fifo_size f = fifo_size ?f0"
      "ring_count f + remove_successes obs = ring_count ?f0 + insert_successes obs"
    by blast
  have "int (ring_count f) = int (insert_successes obs) - int (remove_successes obs)"
    using r(4) c0 by simp
  moreover have "ring_count f < unat sz"
    using ring_count_less [OF r(2)] r(3) s0 by simp
  ultimately show ?thesis using r(1,2,3) s0 by auto
qed

lemma sim_res_cmd:
  assumes "sim_res (gfifo_rel k) x y"
  shows "sim_res gfifo_pow2_rel (bindE x (\<lambda>(ob, s). Inr (ObsOp ob, s)))
           (bindE y (\<lambda>(ob, t). Inr (ObsOp ob, t)))"
proof (cases x)
  case (Inl e)
  with assms show ?thesis by (simp add: sim_res_def)
next
  case (Inr r)
  obtain ob s where r: "r = (ob, s)" by (cases r)
  with Inr assms obtain t where "y = Inr (ob, t)" "gfifo_rel k s t"
    by (auto simp: sim_res_def split: sum.splits)
  with Inr r show ?thesis by (auto simp: sim_res_def gfifo_pow2_rel_def)
qed

lemma gfifo_cmd_sim:
  assumes "gfifo_pow2_rel g f" "pow2_init c"
  shows "sim_res gfifo_pow2_rel (gfifo_cmd g c) (generic_fifo_cmd f c)"
proof (cases c)
  case (CmdInit buf flag sz)
  with assms(2) obtain k where "k < 32" "sz = 2 ^ k" by auto
  then have "gfifo_pow2_rel (gfifo_init buf sz) (generic_fifo_init buf flag sz)"
    using gfifo_init_rel [of k buf flag] by (auto simp: gfifo_pow2_rel_def)
  with CmdInit show ?thesis by (simp add: sim_res_def)
next
  case (CmdOp p)
  from assms(1) obtain k where "gfifo_rel k g f" by (auto simp: gfifo_pow2_rel_def)
  from sim_res_cmd [OF gfifo_step_sim [OF this, of p]] CmdOp show ?thesis by simp
qed

lemma observations_cons:
  "observations (bindE r (\<lambda>(obs, s). Inr (ob # obs, s)))
     = (case observations r of Inl e \<Rightarrow> Inl e | Inr obs \<Rightarrow> Inr (ob # obs))"
  by (cases r) (auto simp: observations_def)

lemma generic_cmd_wf:
  assumes "generic_fifo_wf f" "pow2_init c \<and> storage_fits c"
  shows "\<exists>ob f'. generic_fifo_cmd f c = Inr (ob, f') \<and> generic_fifo_wf f'"
proof (cases c)
  case (CmdInit buf flag sz)
  with assms(2) obtain k where k: "k < 32" "sz = 2 ^ k" and len: "length buf = unat sz" by auto
  have "sz \<noteq> 0" using k by simp
  moreover have "unat sz \<le> 2 ^ 31" using k pow2_le by simp
  ultimately have "generic_fifo_wf (generic_fifo_init buf flag sz)"
    using len by (rule generic_init_wf)
  with CmdInit show ?thesis by simp
next
  case (CmdOp p)
  from generic_step_wf [OF assms(1), of p] obtain ob f' where
    "generic_fifo_step f p = Inr (ob, f')" "generic_fifo_wf f'" by blast
  with CmdOp show ?thesis by simp
qed

section \<open>The claims\<close>

text \<open>
  Claim C1 (indexed peek).  The claim: for \<open>0 \<le> index < count\<close> the indexed peek succeeds
  and yields the element at queue position \<open>index\<close>, wrapping past the end of the
  storage, and for \<open>index \<ge> count\<close> it reports failure.  The code breaks both halves.
  With four slots, \<open>out_idx = 3\<close> and two elements held, \<open>generic_fifo_select_index\<close>
  at index 1 reads slot 4, outside the storage, where its sibling \<open>generic_fifo_change\<close>
  reduces the same sum modulo the size and reaches slot 0.  \<open>GetValue\<close> on an empty
  \<open>CircularFifo\<close> at index 2 returns success with the content of a free slot: its guard
  \<open>index < 0 && index > Count ()\<close> never holds.
\<close>

theorem select_index_failing_inputs:
  "generic_fifo_valid_count
     \<lparr>buffer = [10, 11, 12, 13 :: nat], in_idx = 1, out_idx = 3, fifo_size = 4,
      user_buffer_flag = 0\<rparr> = Inr 2
   \<and> generic_fifo_select_index
     \<lparr>buffer = [10, 11, 12, 13 :: nat], in_idx = 1, out_idx = 3, fifo_size = 4,
      user_buffer_flag = 0\<rparr> 1 = Inl OutOfBounds
   \<and> generic_fifo_change
     \<lparr>buffer = [10, 11, 12, 13 :: nat], in_idx = 1, out_idx = 3, fifo_size = 4,
      user_buffer_flag = 0\<rparr> 99 1
     = Inr (True, \<lparr>buffer = [99, 11, 12, 13], in_idx = 1, out_idx = 3, fifo_size = 4,
         user_buffer_flag = 0\<rparr>)
   \<and> Count \<lparr>cs_buffer = [7, 7, 7, 7 :: nat], cs_inIdx = 0, cs_outIdx = 0, cs_size = 4,
        cs_capacity = 3\<rparr> = Inr 0
   \<and> GetValue \<lparr>cs_buffer = [7, 7, 7, 7 :: nat], cs_inIdx = 0, cs_outIdx = 0, cs_size = 4,
        cs_capacity = 3\<rparr> 2 = Inr (True, Some 7)"
  by (simp add: generic_fifo_valid_count_def generic_fifo_select_index_def generic_fifo_change_def
      Count_def GetValue_def load_def store_def signed_modulo_int_def)

text \<open>
  Claim C2 (construction with an invalid capacity).  The claim: \<open>init\<close> with capacity
  zero, or under the mask convention with a capacity that is not a power of two, reports a
  configuration failure and produces no buffer.  The code has no such check: at capacity
  0 and at capacity 6 \<open>gfifo_init\<close> binds the structure (with mask \<open>2 ^ 32 - 1\<close> and 5),
  the six-slot buffer then accepts an insert, and \<open>generic_fifo_init\<close> binds at capacity 0.
\<close>

theorem init_invalid_capacity_counterexample:
  "gfifo_init [] 0 = \<lparr>g_data = ([] :: nat list), g_in = 0, g_out = 0, g_size = 0, g_mask = 4294967295\<rparr>
   \<and> gfifo_empty (gfifo_init ([] :: nat list) 0)
   \<and> gfifo_init [0, 0, 0, 0, 0, 0 :: nat] 6
       = \<lparr>g_data = [0, 0, 0, 0, 0, 0], g_in = 0, g_out = 0, g_size = 6, g_mask = 5\<rparr>
   \<and> gfifo_insert (gfifo_init [0, 0, 0, 0, 0, 0 :: nat] 6) 7
       = Inr (True, \<lparr>g_data = [7, 0, 0, 0, 0, 0], g_in = 1, g_out = 0, g_size = 6, g_mask = 5\<rparr>)
   \<and> generic_fifo_init [] 0 0
       = \<lparr>buffer = ([] :: nat list), in_idx = 0, out_idx = 0, fifo_size = 0, user_buffer_flag = 0\<rparr>
   \<and> generic_fifo_empty (generic_fifo_init ([] :: nat list) 0 0)"
  by (simp add: gfifo_init_def gfifo_empty_def gfifo_insert_def store_def generic_fifo_init_def
      generic_fifo_empty_def)

text \<open>
  Claim C2 as amended: for every requested capacity, valid or not, \<open>init\<close> binds the
  storage, records the capacity (and, for \<open>gfifo\<close>, the mask \<open>capacity - 1\<close> modulo
  \<open>2 ^ 32\<close>), sets both cursors to 0 and so yields a buffer that reports empty.
\<close>

theorem init_never_rejects:
  "g_data (gfifo_init buf sz) = buf \<and> g_size (gfifo_init buf sz) = sz
   \<and> g_mask (gfifo_init buf sz) = sz - 1
   \<and> g_in (gfifo_init buf sz) = 0 \<and> g_out (gfifo_init buf sz) = 0
   \<and> gfifo_empty (gfifo_init buf sz) \<and> gfifo_vaild_count (gfifo_init buf sz) = 0
   \<and> buffer (generic_fifo_init buf flag sz) = buf \<and> fifo_size (generic_fifo_init buf flag sz) = sz
   \<and> user_buffer_flag (generic_fifo_init buf flag sz) = flag
   \<and> in_idx (generic_fifo_init buf flag sz) = 0 \<and> out_idx (generic_fifo_init buf flag sz) = 0
   \<and> generic_fifo_empty (generic_fifo_init buf flag sz)"
  by (simp add: gfifo_init_def gfifo_empty_def gfifo_vaild_count_def generic_fifo_init_def
      generic_fifo_empty_def)

text \<open>
  Claim C5 (bulk insert).  The claim: a successful \<open>insert_array\<close> appends all \<open>n\<close>
  elements in order, and one that exceeds the usable capacity fails without touching the
  buffer.  With eight slots, \<open>in = 6\<close>, \<open>out = 5\<close> (one element, 9, held), inserting
  \<open>[1, 2, 3]\<close> succeeds but the wrapped copy takes its source at offset
  \<open>_len - (size - in) = 1\<close> instead of \<open>size - in = 2\<close>: the queue then holds
  9, 1, 2, 2.  With \<open>_len = 2 ^ 32 - 1\<close> the 32-bit sum in the guard wraps to 0, the guard
  passes and the copy runs outside the storage.
\<close>

theorem insert_array_failing_input:
  "gfifo_vaild_count \<lparr>g_data = [0, 0, 0, 0, 0, 9, 0, 0 :: nat], g_in = 6, g_out = 5, g_size = 8, g_mask = 7\<rparr> = 1
   \<and> gfifo_insert_array
       \<lparr>g_data = [0, 0, 0, 0, 0, 9, 0, 0 :: nat], g_in = 6, g_out = 5, g_size = 8, g_mask = 7\<rparr>
       [1, 2, 3] 3
     = Inr (True, \<lparr>g_data = [2, 0, 0, 0, 0, 9, 1, 2], g_in = 1, g_out = 5, g_size = 8, g_mask = 7\<rparr>)
   \<and> observations (run_ops gfifo_step
        \<lparr>g_data = [2, 0, 0, 0, 0, 9, 1, 2 :: nat], g_in = 1, g_out = 5, g_size = 8, g_mask = 7\<rparr>
        [OpRemove, OpRemove, OpRemove, OpRemove])
     = Inr [ObsRemove True (Some 9), ObsRemove True (Some 1), ObsRemove True (Some 2),
            ObsRemove True (Some 2)]
   \<and> gfifo_insert_array
       \<lparr>g_data = [0, 0, 0, 0, 0, 9, 0, 0 :: nat], g_in = 6, g_out = 5, g_size = 8, g_mask = 7\<rparr>
       [1, 2, 3] 4294967295
     = Inl OutOfBounds"
  by (simp add: gfifo_vaild_count_def gfifo_insert_array_def memcpy_elems_def observations_def
      gfifo_remove_def load_def)

text \<open>
  Claim C6 (insert on a full buffer).  In each of the three variants: when \<open>is_full\<close>
  holds, a single-element insert returns the failure indicator and leaves the structure,
  cursors and storage, as it was.
\<close>

theorem full_insert_fails:
  "(gfifo_full g \<longrightarrow> gfifo_insert g v = Inr (False, g))
   \<and> (generic_fifo_full f = Inr True \<longrightarrow> generic_fifo_insert f v = Inr (False, f))
   \<and> (IsFull c = Inr True \<longrightarrow> Insert c v = Inr (False, c))"
  by (simp add: gfifo_full_def gfifo_insert_def generic_fifo_insert_def Insert_def)

text \<open>An instance of the preceding theorem, its hypotheses discharged.\<close>

theorem full_insert_fails_witness:
  "gfifo_full \<lparr>g_data = [1, 2, 3, 0 :: nat], g_in = 3, g_out = 0, g_size = 4, g_mask = 3\<rparr>
   \<and> gfifo_insert \<lparr>g_data = [1, 2, 3, 0 :: nat], g_in = 3, g_out = 0, g_size = 4, g_mask = 3\<rparr> 9
       = Inr (False, \<lparr>g_data = [1, 2, 3, 0], g_in = 3, g_out = 0, g_size = 4, g_mask = 3\<rparr>)
   \<and> generic_fifo_full
       \<lparr>buffer = [1, 2, 3, 0 :: nat], in_idx = 3, out_idx = 0, fifo_size = 4, user_buffer_flag = 0\<rparr>
       = Inr True
   \<and> generic_fifo_insert
       \<lparr>buffer = [1, 2, 3, 0 :: nat], in_idx = 3, out_idx = 0, fifo_size = 4, user_buffer_flag = 0\<rparr> 9
       = Inr (False,
           \<lparr>buffer = [1, 2, 3, 0], in_idx = 3, out_idx = 0, fifo_size = 4, user_buffer_flag = 0\<rparr>)
   \<and> IsFull \<lparr>cs_buffer = [1, 2, 3, 0 :: nat], cs_inIdx = 3, cs_outIdx = 0, cs_size = 4,
        cs_capacity = 3\<rparr> = Inr True
   \<and> Insert \<lparr>cs_buffer = [1, 2, 3, 0 :: nat], cs_inIdx = 3, cs_outIdx = 0, cs_size = 4,
        cs_capacity = 3\<rparr> 9
       = Inr (False, \<lparr>cs_buffer = [1, 2, 3, 0], cs_inIdx = 3, cs_outIdx = 0, cs_size = 4,
           cs_capacity = 3\<rparr>)"
proof -
  let ?g = "\<lparr>g_data = [1, 2, 3, 0 :: nat], g_in = 3, g_out = 0, g_size = 4, g_mask = 3\<rparr>"
  let ?f = "\<lparr>buffer = [1, 2, 3, 0 :: nat], in_idx = 3, out_idx = 0, fifo_size = 4,
             user_buffer_flag = 0\<rparr>"
  let ?c = "\<lparr>cs_buffer = [1, 2, 3, 0 :: nat], cs_inIdx = 3, cs_outIdx = 0, cs_size = 4,
             cs_capacity = 3\<rparr>"
  have hg: "gfifo_full ?g" by (simp add: gfifo_full_def)
  have hf: "generic_fifo_full ?f = Inr True" by (simp add: generic_fifo_full_def)
  have hc: "IsFull ?c = Inr True" by (simp add: IsFull_def)
  show ?thesis
    using full_insert_fails [of ?g 9 ?f ?c] hg hf hc by simp
qed

text \<open>
  Claim C7 (count tracks the successes).  The claim, for every freshly initialised buffer:
  after a sequence of inserts and removes, \<open>count ()\<close> is the number of successful inserts
  minus the number of successful removes.  It fails where \<open>in - out + size\<close> no longer
  fits in 32 bits: a \<open>generic_fifo\<close> of \<open>2 ^ 31 + 1\<close> slots takes \<open>2 ^ 31 - 1\<close> inserts,
  all successful, and then counts 0 elements.
\<close>

theorem count_overflow_counterexample:
  "run_ops generic_fifo_step (generic_fifo_init (replicate 2147483649 (0::nat)) 0 2147483649)
     (replicate 2147483647 (OpInsert 0))
   = Inr (replicate 2147483647 (ObsInsert True),
       \<lparr>buffer = replicate 2147483649 0, in_idx = 2147483647, out_idx = 0,
        fifo_size = 2147483649, user_buffer_flag = 0\<rparr>)
   \<and> insert_successes (replicate 2147483647 (ObsInsert True :: nat fifo_obs)) = 2147483647
   \<and> remove_successes (replicate 2147483647 (ObsInsert True :: nat fifo_obs)) = 0
   \<and> generic_fifo_valid_count
       \<lparr>buffer = replicate 2147483649 (0::nat), in_idx = 2147483647, out_idx = 0,
        fifo_size = 2147483649, user_buffer_flag = 0\<rparr> = Inr 0"
proof -
  have u: "unat (2147483649 :: u32) = 2147483649" by simp
  have "unat (0 :: u32) + 2147483647 < unat (2147483649 :: u32)" by simp
  from generic_fill [OF this, of "0::nat" 0]
  have "run_ops generic_fifo_step (generic_fifo_init (replicate 2147483649 (0::nat)) 0 2147483649)
     (replicate 2147483647 (OpInsert 0))
   = Inr (replicate 2147483647 (ObsInsert True),
       \<lparr>buffer = replicate 2147483649 0, in_idx = 2147483647, out_idx = 0,
        fifo_size = 2147483649, user_buffer_flag = 0\<rparr>)"
    by (simp add: generic_fifo_init_def)
  moreover have "generic_fifo_valid_count
       \<lparr>buffer = replicate 2147483649 (0::nat), in_idx = 2147483647, out_idx = 0,
        fifo_size = 2147483649, user_buffer_flag = 0\<rparr> = Inr 0"
    by (simp add: generic_fifo_valid_count_def)
  ultimately show ?thesis
    by (simp only: insert_successes_replicate simp_thms)
qed

text \<open>
  Claim C7 as amended: for a buffer of at most \<open>2 ^ 31\<close> slots (for \<open>gfifo\<close> a power
  of two of slots, for \<open>generic_fifo\<close> at least one slot, the storage having as many),
  every sequence of single-element operations applied to the freshly initialised buffer
  runs without a fault, and afterwards \<open>count ()\<close> equals the number of successful inserts
  minus the number of successful removes and lies between 0 and the usable capacity.
  No assumption on the sequence is needed: an insert on a full buffer and a remove on an
  empty one fail and are not counted.
\<close>

theorem count_tracks_successes:
  "(k < 32 \<and> length buf = 2 ^ k \<longrightarrow>
      (\<exists>obs g. run_ops gfifo_step (gfifo_init buf (2 ^ k)) ps = Inr (obs, g) \<and>
         uint (gfifo_vaild_count g) = int (insert_successes obs) - int (remove_successes obs) \<and>
         0 \<le> uint (gfifo_vaild_count g) \<and> uint (gfifo_vaild_count g) \<le> 2 ^ k - 1))
   \<and> (sz \<noteq> 0 \<and> unat sz \<le> 2 ^ 31 \<and> length buf = unat sz \<longrightarrow>
      (\<exists>obs f cnt. run_ops generic_fifo_step (generic_fifo_init buf flag sz) ps = Inr (obs, f) \<and>
         generic_fifo_valid_count f = Inr cnt \<and>
         cnt = int (insert_successes obs) - int (remove_successes obs) \<and>
         0 \<le> cnt \<and> cnt \<le> uint sz - 1))
   \<and> (unat capacity < 2 ^ 31 \<longrightarrow>
      (\<exists>obs c cnt. run_ops CircularFifo_step (CircularFifo_new dflt capacity) ps = Inr (obs, c) \<and>
         Count c = Inr cnt \<and>
         uint cnt = int (insert_successes obs) - int (remove_successes obs) \<and>
         0 \<le> uint cnt \<and> uint cnt \<le> uint capacity))"
proof (intro conjI impI)
  assume h: "k < 32 \<and> length buf = 2 ^ k"
  then have k: "k < 32" and len: "length buf = unat ((2::u32) ^ k)"
    by (simp_all add: unat_pow2)
  have nz: "(2::u32) ^ k \<noteq> 0" using k by simp
  from generic_count_run [OF nz pow2_le [OF k] len, of 0 ps] obtain obs f where
    r: "run_ops generic_fifo_step (generic_fifo_init buf 0 (2 ^ k)) ps = Inr (obs, f)"
      "generic_fifo_wf f"
      "int (ring_count f) = int (insert_successes obs) - int (remove_successes obs)"
      "ring_count f < unat ((2::u32) ^ k)"
    by blast
  have "sim_res (gfifo_rel k) (run_ops gfifo_step (gfifo_init buf (2 ^ k)) ps)
          (run_ops generic_fifo_step (generic_fifo_init buf 0 (2 ^ k)) ps)"
    by (rule run_ops_sim [where P = "\<lambda>_. True"])
      (simp_all add: gfifo_step_sim gfifo_init_rel [OF k] list_all_iff)
  with r(1) obtain g where
    g: "run_ops gfifo_step (gfifo_init buf (2 ^ k)) ps = Inr (obs, g)" "gfifo_rel k g f"
    using sim_res_InrD by fastforce
  have c: "unat (gfifo_vaild_count g) = ring_count f"
    by (rule gfifo_rel_count [OF g(2) r(2)])
  then have u: "uint (gfifo_vaild_count g) = int (ring_count f)"
    by (metis uint_nat)
  have "int (ring_count f) < 2 ^ k"
    using r(4) unat_pow2 [OF k] by (metis of_nat_less_iff of_nat_numeral of_nat_power)
  then have "uint (gfifo_vaild_count g) \<le> 2 ^ k - 1" using u by simp
  with g(1) u r(3)
  show "\<exists>obs g. run_ops gfifo_step (gfifo_init buf (2 ^ k)) ps = Inr (obs, g) \<and>
         uint (gfifo_vaild_count g) = int (insert_successes obs) - int (remove_successes obs) \<and>
         0 \<le> uint (gfifo_vaild_count g) \<and> uint (gfifo_vaild_count g) \<le> 2 ^ k - 1"
    by auto
next
  assume "sz \<noteq> 0 \<and> unat sz \<le> 2 ^ 31 \<and> length buf = unat sz"
  then have h: "sz \<noteq> 0" "unat sz \<le> 2 ^ 31" "length buf = unat sz" by simp_all
  from generic_count_run [OF h, of flag ps] obtain obs f where
    r: "run_ops generic_fifo_step (generic_fifo_init buf flag sz) ps = Inr (obs, f)"
      "generic_fifo_wf f"
      "int (ring_count f) = int (insert_successes obs) - int (remove_successes obs)"
      "ring_count f < unat sz"
    by blast
  have "int (ring_count f) < uint sz"
    using r(4) by (metis of_nat_less_iff uint_nat)
  then have "int (ring_count f) \<le> uint sz - 1" by simp
  with r(1,3) valid_count_ring [OF r(2)]
  show "\<exists>obs f cnt. run_ops generic_fifo_step (generic_fifo_init buf flag sz) ps = Inr (obs, f) \<and>
         generic_fifo_valid_count f = Inr cnt \<and>
         cnt = int (insert_successes obs) - int (remove_successes obs) \<and>
         0 \<le> cnt \<and> cnt \<le> uint sz - 1"
    by auto
next
  assume cap: "unat capacity < 2 ^ 31"
  let ?c0 = "CircularFifo_new dflt capacity"
  have u1: "unat (capacity + 1) = unat capacity + 1"
    using cap by (simp add: unat_word_ariths)
  have wf0: "generic_fifo_wf (cs_to_generic ?c0)"
    using cap u1
    by (simp add: generic_fifo_wf_def cs_to_generic_def CircularFifo_new_def word_less_nat_alt)
  have c0: "ring_count (cs_to_generic ?c0) = 0"
    using u1 by (simp add: ring_count_def cs_to_generic_def CircularFifo_new_def)
  from cs_run_wf [OF wf0, of ps] obtain obs c where
    r: "run_ops CircularFifo_step ?c0 ps = Inr (obs, c)" "generic_fifo_wf (cs_to_generic c)"
      "cs_size c = cs_size ?c0"
      "ring_count (cs_to_generic c) + remove_successes obs
         = ring_count (cs_to_generic ?c0) + insert_successes obs"
    by blast
  let ?cnt = "(cs_inIdx c - cs_outIdx c + cs_size c) mod cs_size c"
  have nz: "cs_size c \<noteq> 0" using wf_size_nz [OF r(2)] by (simp add: cs_to_generic_def)
  have cnt: "Count c = Inr ?cnt" using nz by (simp add: Count_def)
  have un: "unat ?cnt = ring_count (cs_to_generic c)"
    using count_word_ring [OF r(2)] by (simp add: cs_to_generic_def)
  then have ui: "uint ?cnt = int (ring_count (cs_to_generic c))" by (metis uint_nat)
  have "ring_count (cs_to_generic c) < unat capacity + 1"
    using ring_count_less [OF r(2)] r(3) u1 by (simp add: cs_to_generic_def CircularFifo_new_def)
  then have "int (ring_count (cs_to_generic c)) \<le> uint capacity"
    by (metis Suc_eq_plus1 less_Suc_eq_le of_nat_le_iff uint_nat)
  moreover have "int (ring_count (cs_to_generic c))
      = int (insert_successes obs) - int (remove_successes obs)"
    using r(4) c0 by simp
  ultimately
  show "\<exists>obs c cnt. run_ops CircularFifo_step (CircularFifo_new dflt capacity) ps = Inr (obs, c) \<and>
         Count c = Inr cnt \<and>
         uint cnt = int (insert_successes obs) - int (remove_successes obs) \<and>
         0 \<le> uint cnt \<and> uint cnt \<le> uint capacity"
    using r(1) cnt ui by auto
qed

text \<open>An instance of the preceding theorem, its hypotheses discharged.\<close>

theorem count_tracks_successes_witness:
  "((2::nat) < 32 \<and> length [0, 0, 0, 0 :: nat] = 2 ^ 2)
   \<and> ((4::u32) \<noteq> 0 \<and> unat (4::u32) \<le> 2 ^ 31 \<and> length [0, 0, 0, 0 :: nat] = unat (4::u32))
   \<and> unat (3::u32) < 2 ^ 31
   \<and> run_ops gfifo_step (gfifo_init [0, 0, 0, 0 :: nat] 4) [OpInsert 5, OpInsert 6, OpRemove]
       = Inr ([ObsInsert True, ObsInsert True, ObsRemove True (Some 5)],
           \<lparr>g_data = [5, 6, 0, 0], g_in = 2, g_out = 1, g_size = 4, g_mask = 3\<rparr>)
   \<and> (\<exists>obs g. run_ops gfifo_step (gfifo_init [0, 0, 0, 0 :: nat] (2 ^ 2))
          [OpInsert 5, OpInsert 6, OpRemove] = Inr (obs, g) \<and>
         uint (gfifo_vaild_count g) = int (insert_successes obs) - int (remove_successes obs) \<and>
         0 \<le> uint (gfifo_vaild_count g) \<and> uint (gfifo_vaild_count g) \<le> 2 ^ 2 - 1)
   \<and> (\<exists>obs f cnt. run_ops generic_fifo_step (generic_fifo_init [0, 0, 0, 0 :: nat] 0 4)
          [OpInsert 5, OpInsert 6, OpRemove] = Inr (obs, f) \<and>
         generic_fifo_valid_count f = Inr cnt \<and>
         cnt = int (insert_successes obs) - int (remove_successes obs) \<and>
         0 \<le> cnt \<and> cnt \<le> uint (4::u32) - 1)
   \<and> (\<exists>obs c cnt. run_ops CircularFifo_step (CircularFifo_new (0::nat) 3)
          [OpInsert 5, OpInsert 6, OpRemove] = Inr (obs, c) \<and>
         Count c = Inr cnt \<and>
         uint cnt = int (insert_successes obs) - int (remove_successes obs) \<and>
         0 \<le> uint cnt \<and> uint cnt \<le> uint (3::u32))"
proof -
  have h1: "(2::nat) < 32 \<and> length [0, 0, 0, 0 :: nat] = 2 ^ 2" by simp
  have h2: "(4::u32) \<noteq> 0 \<and> unat (4::u32) \<le> 2 ^ 31 \<and> length [0, 0, 0, 0 :: nat] = unat (4::u32)"
    by simp
  have h3: "unat (3::u32) < 2 ^ 31" by simp
  have r: "run_ops gfifo_step (gfifo_init [0, 0, 0, 0 :: nat] 4) [OpInsert 5, OpInsert 6, OpRemove]
       = Inr ([ObsInsert True, ObsInsert True, ObsRemove True (Some 5)],
           \<lparr>g_data = [5, 6, 0, 0], g_in = 2, g_out = 1, g_size = 4, g_mask = 3\<rparr>)"
    by (simp add: gfifo_init_def gfifo_insert_def gfifo_remove_def store_def load_def)
  show ?thesis
    using count_tracks_successes [where k = 2 and buf = "[0, 0, 0, 0 :: nat]" and sz = 4
        and capacity = 3 and flag = 0 and dflt = 0 and ps = "[OpInsert 5, OpInsert 6, OpRemove]"]
      h1 h2 h3 r
    by blast
qed

text \<open>
  Claim C8 (wraparound keeps the order).  A \<open>CircularFifo\<close> of capacity 3 (four slots):
  insert \<open>a\<close>, \<open>b\<close>, \<open>c\<close>, remove two, insert \<open>x\<close>, \<open>y\<close>.  Every call succeeds, the
  removes yield \<open>a\<close> then \<open>b\<close>, the write cursor wraps to slot 1, and \<open>GetAll\<close> returns
  \<open>[c, x, y]\<close>: the three elements held, in insertion order.
\<close>

theorem wraparound_fifo_order:
  "run_ops CircularFifo_step (CircularFifo_new d 3)
     [OpInsert a, OpInsert b, OpInsert c, OpRemove, OpRemove, OpInsert x, OpInsert y]
   = Inr ([ObsInsert True, ObsInsert True, ObsInsert True, ObsRemove True (Some a),
           ObsRemove True (Some b), ObsInsert True, ObsInsert True],
          \<lparr>cs_buffer = [y, b, c, x], cs_inIdx = 1, cs_outIdx = 2, cs_size = 4, cs_capacity = 3\<rparr>)
   \<and> GetAll \<lparr>cs_buffer = [y, b, c, x], cs_inIdx = 1, cs_outIdx = 2, cs_size = 4, cs_capacity = 3\<rparr>
       = Inr [c, x, y]"
proof -
  have "replicate 4 d = [d, d, d, d]" by (simp add: eval_nat_numeral)
  then have new: "CircularFifo_new d 3
      = \<lparr>cs_buffer = [d, d, d, d], cs_inIdx = 0, cs_outIdx = 0, cs_size = 4, cs_capacity = 3\<rparr>"
    by (simp add: CircularFifo_new_def)
  have run: "run_ops CircularFifo_step (CircularFifo_new d 3)
     [OpInsert a, OpInsert b, OpInsert c, OpRemove, OpRemove, OpInsert x, OpInsert y]
   = Inr ([ObsInsert True, ObsInsert True, ObsInsert True, ObsRemove True (Some a),
           ObsRemove True (Some b), ObsInsert True, ObsInsert True],
          \<lparr>cs_buffer = [y, b, c, x], cs_inIdx = 1, cs_outIdx = 2, cs_size = 4, cs_capacity = 3\<rparr>)"
    by (simp add: new Insert_def Remove_def IsFull_def IsEmpty_def store_def load_def)
  have all: "GetAll \<lparr>cs_buffer = [y, b, c, x], cs_inIdx = 1, cs_outIdx = 2, cs_size = 4,
      cs_capacity = 3\<rparr> = Inr [c, x, y]"
    by (simp add: GetAll_def Count_def load_def upt_rec signed_modulo_int_def)
  from run all show ?thesis by (rule conjI)
qed

text \<open>
  Claim C9 (round trip).  The claim: on every non-full buffer, \<open>insert (v)\<close> followed by
  \<open>remove\<close> yields \<open>v\<close>.  On a buffer that already holds an element the remove yields
  that element: with 1 held, inserting 2 and removing gives 1.
\<close>

theorem insert_remove_counterexample:
  "\<not> gfifo_full \<lparr>g_data = [1, 0, 0, 0 :: nat], g_in = 1, g_out = 0, g_size = 4, g_mask = 3\<rparr>
   \<and> gfifo_insert \<lparr>g_data = [1, 0, 0, 0 :: nat], g_in = 1, g_out = 0, g_size = 4, g_mask = 3\<rparr> 2
       = Inr (True, \<lparr>g_data = [1, 2, 0, 0], g_in = 2, g_out = 0, g_size = 4, g_mask = 3\<rparr>)
   \<and> gfifo_remove \<lparr>g_data = [1, 2, 0, 0 :: nat], g_in = 2, g_out = 0, g_size = 4, g_mask = 3\<rparr>
       = Inr (True, \<lparr>g_data = [1, 2, 0, 0], g_in = 2, g_out = 1, g_size = 4, g_mask = 3\<rparr>, Some 1)"
  by (simp add: gfifo_full_def gfifo_insert_def gfifo_remove_def store_def load_def)

text \<open>
  Claim C9 as amended: on every non-full \<open>gfifo\<close> whose cursors lie inside the storage,
  \<open>insert (v)\<close> succeeds and the \<open>remove\<close> that follows succeeds and yields the oldest
  element: \<open>v\<close> itself when the buffer was empty before the insert, and otherwise the
  element that was at the read cursor.
\<close>

theorem insert_remove_oldest:
  assumes "\<not> gfifo_full g"
    and "unat (g_in g) < length (g_data g)" and "unat (g_out g) < length (g_data g)"
  shows "gfifo_insert g v
           = Inr (True, g\<lparr>g_data := (g_data g)[unat (g_in g) := v],
                          g_in := (g_in g + 1) AND g_mask g\<rparr>)
       \<and> gfifo_remove (g\<lparr>g_data := (g_data g)[unat (g_in g) := v],
                          g_in := (g_in g + 1) AND g_mask g\<rparr>)
           = Inr (True,
               g\<lparr>g_data := (g_data g)[unat (g_in g) := v], g_in := (g_in g + 1) AND g_mask g,
                  g_out := (g_out g + 1) AND g_mask g\<rparr>,
               Some (if gfifo_empty g then v else g_data g ! unat (g_out g)))"
proof -
  have nf: "(g_in g + 1) AND g_mask g \<noteq> g_out g"
    using assms(1) by (simp add: gfifo_full_def)
  have st: "store (g_data g) (uint (g_in g)) v = Inr ((g_data g)[unat (g_in g) := v])"
    using store_in_range [OF assms(2), of v] by simp
  have ld: "load ((g_data g)[unat (g_in g) := v]) (uint (g_out g))
      = Inr ((g_data g)[unat (g_in g) := v] ! unat (g_out g))"
    using load_in_range [of "unat (g_out g)" "(g_data g)[unat (g_in g) := v]"] assms(3) by simp
  have val: "(g_data g)[unat (g_in g) := v] ! unat (g_out g)
      = (if gfifo_empty g then v else g_data g ! unat (g_out g))"
    using assms(2) by (auto simp: gfifo_empty_def nth_list_update word_unat_eq_iff)
  have ins: "gfifo_insert g v
           = Inr (True, g\<lparr>g_data := (g_data g)[unat (g_in g) := v],
                          g_in := (g_in g + 1) AND g_mask g\<rparr>)"
    using nf st by (simp add: gfifo_insert_def)
  have rem: "gfifo_remove (g\<lparr>g_data := (g_data g)[unat (g_in g) := v],
                          g_in := (g_in g + 1) AND g_mask g\<rparr>)
           = Inr (True,
               g\<lparr>g_data := (g_data g)[unat (g_in g) := v], g_in := (g_in g + 1) AND g_mask g,
                  g_out := (g_out g + 1) AND g_mask g\<rparr>,
               Some (if gfifo_empty g then v else g_data g ! unat (g_out g)))"
    using nf ld val by (simp add: gfifo_remove_def)
  from ins rem show ?thesis by (rule conjI)
qed

text \<open>An instance of the preceding theorem, its hypotheses discharged.\<close>

theorem insert_remove_oldest_witness:
  "\<not> gfifo_full \<lparr>g_data = [0, 0, 0, 0 :: nat], g_in = 2, g_out = 2, g_size = 4, g_mask = 3\<rparr>
   \<and> gfifo_empty \<lparr>g_data = [0, 0, 0, 0 :: nat], g_in = 2, g_out = 2, g_size = 4, g_mask = 3\<rparr>
   \<and> gfifo_insert \<lparr>g_data = [0, 0, 0, 0 :: nat], g_in = 2, g_out = 2, g_size = 4, g_mask = 3\<rparr> 5
       = Inr (True, \<lparr>g_data = [0, 0, 5, 0], g_in = 3, g_out = 2, g_size = 4, g_mask = 3\<rparr>)
   \<and> gfifo_remove \<lparr>g_data = [0, 0, 5, 0 :: nat], g_in = 3, g_out = 2, g_size = 4, g_mask = 3\<rparr>
       = Inr (True, \<lparr>g_data = [0, 0, 5, 0], g_in = 3, g_out = 3, g_size = 4, g_mask = 3\<rparr>, Some 5)"
proof -
  let ?g = "\<lparr>g_data = [0, 0, 0, 0 :: nat], g_in = 2, g_out = 2, g_size = 4, g_mask = 3\<rparr>"
  have h1: "\<not> gfifo_full ?g" by (simp add: gfifo_full_def)
  have h2: "unat (g_in ?g) < length (g_data ?g)" by simp
  have h3: "unat (g_out ?g) < length (g_data ?g)" by simp
  have e: "gfifo_empty ?g" by (simp add: gfifo_empty_def)
  show ?thesis
    using insert_remove_oldest [OF h1 h2 h3, of 5] h1 e by simp
qed

text \<open>
  Claim C10 (the mask and the modulo variant agree).  For every sequence of commands that
  starts with an initialisation and whose initialisations all have a power of two of
  slots, \<open>gfifo\<close> and \<open>generic_fifo\<close> give the same observations: the same success and
  failure results, the same counts, the same removed values, and the same fault if the
  storage is too short.  When each storage has as many slots as its initialisation says,
  the run has no fault.
\<close>

theorem mask_modulo_equivalent:
  assumes "list_all pow2_init (CmdInit buf flag sz # cs)"
  shows "observations (run_ops gfifo_cmd g0 (CmdInit buf flag sz # cs))
           = observations (run_ops generic_fifo_cmd f0 (CmdInit buf flag sz # cs))
       \<and> (list_all storage_fits (CmdInit buf flag sz # cs) \<longrightarrow>
            (\<exists>obs. observations (run_ops generic_fifo_cmd f0 (CmdInit buf flag sz # cs)) = Inr obs))"
proof
  from assms obtain k where k: "k < 32" "sz = 2 ^ k" and rest: "list_all pow2_init cs" by auto
  have "gfifo_pow2_rel (gfifo_init buf sz) (generic_fifo_init buf flag sz)"
    using gfifo_init_rel [of k buf flag] k by (auto simp: gfifo_pow2_rel_def)
  then have "sim_res gfifo_pow2_rel (run_ops gfifo_cmd (gfifo_init buf sz) cs)
      (run_ops generic_fifo_cmd (generic_fifo_init buf flag sz) cs)"
    using gfifo_cmd_sim rest
    by (intro run_ops_sim [where P = pow2_init and R = gfifo_pow2_rel]) blast+
  then have "observations (run_ops gfifo_cmd (gfifo_init buf sz) cs)
      = observations (run_ops generic_fifo_cmd (generic_fifo_init buf flag sz) cs)"
    by (rule sim_res_observations)
  then show "observations (run_ops gfifo_cmd g0 (CmdInit buf flag sz # cs))
           = observations (run_ops generic_fifo_cmd f0 (CmdInit buf flag sz # cs))"
    by (simp add: observations_cons)
next
  show "list_all storage_fits (CmdInit buf flag sz # cs) \<longrightarrow>
     (\<exists>obs. observations (run_ops generic_fifo_cmd f0 (CmdInit buf flag sz # cs)) = Inr obs)"
  proof
    assume fits: "list_all storage_fits (CmdInit buf flag sz # cs)"
    from assms obtain k where k: "k < 32" "sz = 2 ^ k" by auto
    have "sz \<noteq> 0" using k by simp
    moreover have "unat sz \<le> 2 ^ 31" using k pow2_le by simp
    moreover have "length buf = unat sz" using fits by simp
    ultimately have wf: "generic_fifo_wf (generic_fifo_init buf flag sz)"
      by (rule generic_init_wf)
    have "list_all (\<lambda>c. pow2_init c \<and> storage_fits c) cs"
      using assms fits by (simp add: list_all_iff)
    with generic_cmd_wf wf obtain obs f where
      "run_ops generic_fifo_cmd (generic_fifo_init buf flag sz) cs = Inr (obs, f)"
      using run_ops_total [where I = generic_fifo_wf and step = generic_fifo_cmd
          and P = "\<lambda>c. pow2_init c \<and> storage_fits c"]
      by blast
    then show "\<exists>obs. observations (run_ops generic_fifo_cmd f0 (CmdInit buf flag sz # cs)) = Inr obs"
      by (simp add: observations_def)
  qed
qed

text \<open>An instance of the preceding theorem, its hypotheses discharged.\<close>

theorem mask_modulo_equivalent_witness:
  "list_all pow2_init
     [CmdInit [0, 0, 0, 0 :: nat] 0 4, CmdOp (OpInsert 5), CmdOp OpCount, CmdOp OpRemove,
      CmdOp OpRemove, CmdInit [0, 0] 1 2, CmdOp (OpInsert 6), CmdOp OpFull, CmdOp OpEmpty]
   \<and> list_all storage_fits
     [CmdInit [0, 0, 0, 0 :: nat] 0 4, CmdOp (OpInsert 5), CmdOp OpCount, CmdOp OpRemove,
      CmdOp OpRemove, CmdInit [0, 0] 1 2, CmdOp (OpInsert 6), CmdOp OpFull, CmdOp OpEmpty]
   \<and> observations (run_ops gfifo_cmd
        \<lparr>g_data = [], g_in = 7, g_out = 9, g_size = 3, g_mask = 1\<rparr>
        [CmdInit [0, 0, 0, 0 :: nat] 0 4, CmdOp (OpInsert 5), CmdOp OpCount, CmdOp OpRemove,
         CmdOp OpRemove, CmdInit [0, 0] 1 2, CmdOp (OpInsert 6), CmdOp OpFull, CmdOp OpEmpty])
     = Inr [ObsInit, ObsOp (ObsInsert True), ObsOp (ObsCount 1), ObsOp (ObsRemove True (Some 5)),
            ObsOp (ObsRemove False None), ObsInit, ObsOp (ObsInsert True), ObsOp (ObsFull True),
            ObsOp (ObsEmpty False)]
   \<and> observations (run_ops generic_fifo_cmd
        \<lparr>buffer = [], in_idx = 2, out_idx = 8, fifo_size = 0, user_buffer_flag = 0\<rparr>
        [CmdInit [0, 0, 0, 0 :: nat] 0 4, CmdOp (OpInsert 5), CmdOp OpCount, CmdOp OpRemove,
         CmdOp OpRemove, CmdInit [0, 0] 1 2, CmdOp (OpInsert 6), CmdOp OpFull, CmdOp OpEmpty])
     = Inr [ObsInit, ObsOp (ObsInsert True), ObsOp (ObsCount 1), ObsOp (ObsRemove True (Some 5)),
            ObsOp (ObsRemove False None), ObsInit, ObsOp (ObsInsert True), ObsOp (ObsFull True),
            ObsOp (ObsEmpty False)]"
proof -
  let ?cs = "[CmdOp (OpInsert 5), CmdOp OpCount, CmdOp OpRemove,
      CmdOp OpRemove, CmdInit [0, 0 :: nat] 1 2, CmdOp (OpInsert 6), CmdOp OpFull, CmdOp OpEmpty]"
  have p4: "\<exists>k \<in> {0 ..< 32}. (4::u32) = 2 ^ k" by (rule bexI [of _ 2]) simp_all
  have p2: "\<exists>k \<in> {0 ..< 32}. (2::u32) = 2 ^ k" by (rule bexI [of _ 1]) simp_all
  have h: "list_all pow2_init (CmdInit [0, 0, 0, 0 :: nat] 0 4 # ?cs)"
    using p4 p2 by simp
  have s: "list_all storage_fits (CmdInit [0, 0, 0, 0 :: nat] 0 4 # ?cs)" by simp
  have g: "observations (run_ops gfifo_cmd
        \<lparr>g_data = [], g_in = 7, g_out = 9, g_size = 3, g_mask = 1\<rparr>
        (CmdInit [0, 0, 0, 0 :: nat] 0 4 # ?cs))
     = Inr [ObsInit, ObsOp (ObsInsert True), ObsOp (ObsCount 1), ObsOp (ObsRemove True (Some 5)),
            ObsOp (ObsRemove False None), ObsInit, ObsOp (ObsInsert True), ObsOp (ObsFull True),
            ObsOp (ObsEmpty False)]"
    by (simp add: observations_def gfifo_init_def gfifo_insert_def gfifo_remove_def
        gfifo_vaild_count_def gfifo_full_def gfifo_empty_def store_def load_def)
  show ?thesis
    using mask_modulo_equivalent [OF h,
        of "\<lparr>g_data = [], g_in = 7, g_out = 9, g_size = 3, g_mask = 1\<rparr>"
           "\<lparr>buffer = [], in_idx = 2, out_idx = 8, fifo_size = 0, user_buffer_flag = 0\<rparr>"]
      h s g
    by simp
qed

end
